theory Spec2Isabelle
  imports Main
begin

section \<open>The timer of src/app/mytimer.class.js\<close>

text \<open>
  The source file holds three successive revisions of the class \<open>MyTimer\<close>. The
  development embeds the newest one (lines 527 to 796), the revision with
  \<open>cumulateEllapsed\<close>, \<open>is_paused\<close> and the guarded \<open>changeStep\<close>.

  The class keeps its state in a private object, an instance of \<open>Defaults\<close>
  (module \<open>mytimer.defaults\<close>), whose source is not part of src/. The members of
  that object which the class reads and calls are modelled from the specification
  (section 4.1, TimerState); each such definition says so.

  Times are integers in milliseconds; JavaScript's floating point numbers are not
  modelled.
\<close>

subsection \<open>The private object\<close>

text \<open>
  Modelled from the spec: the fields of \<open>Defaults\<close> (missing from src/), as the
  data model of TimerState gives them. The counting direction is left out; no method
  of the class reads it. Lengths are non-negative by their type.
\<close>

datatype run_state = Idle | Running | Paused | Stopped

record timer_state =
  sessionLengthMs :: nat
  intervalMs :: nat
  startEpochMs :: "int option"
  accumulatedMs :: int
  nowEpochMs :: int
  runState :: run_state

text \<open>
  Modelled from the spec: the flag getters \<open>is_counting\<close> and \<open>is_paused\<close> of
  \<open>Defaults\<close> (missing from src/). The spec has one \<open>runState\<close> of which no two
  values hold at once.
\<close>

definition is_counting :: "timer_state \<Rightarrow> bool" where
  "is_counting ts = (runState ts = Running)"

definition is_paused :: "timer_state \<Rightarrow> bool" where
  "is_paused ts = (runState ts = Paused)"

text \<open>
  The live delta \<open>now - startEpochMs\<close> of the spec. \<open>startEpochMs\<close> may be unset;
  every path that makes the timer run records it first, and the delta of an unset
  start is taken as zero.
\<close>

definition segment :: "int \<Rightarrow> timer_state \<Rightarrow> int" where
  "segment now ts = (case startEpochMs ts of None \<Rightarrow> 0 | Some st \<Rightarrow> now - st)"

text \<open>
  Modelled from the spec: \<open>markRunning\<close>, which stands for the setter
  \<open>_this.is_counting = true\<close> of \<open>Defaults\<close> (missing from src/), on the resume
  path together with \<open>_this.zeroTimes()\<close>: sets \<open>runState = running\<close>, records
  \<open>startEpochMs = now\<close>.
\<close>

definition markRunning :: "int \<Rightarrow> timer_state \<Rightarrow> timer_state" where
  "markRunning now ts = ts\<lparr>startEpochMs := Some now, runState := Running\<rparr>"

text \<open>
  Modelled from the spec: \<open>markPaused\<close>, which stands for
  \<open>_this.cumulateEllapsed(); _this.is_paused = true\<close> of \<open>Defaults\<close> (missing from
  src/): requires \<open>runState == running\<close>; computes the elapsed delta
  \<open>now - startEpochMs\<close>, adds it to \<open>accumulatedMs\<close>, sets \<open>runState = paused\<close>.
\<close>

definition markPaused :: "int \<Rightarrow> timer_state \<Rightarrow> timer_state" where
  "markPaused now ts =
     ts\<lparr>accumulatedMs := accumulatedMs ts + segment now ts, runState := Paused\<rparr>"

text \<open>
  Modelled from the spec: \<open>markStopped\<close>, which stands for
  \<open>_this.cumulateEllapsed(); _this.is_stopped = true\<close> of \<open>Defaults\<close> (missing from
  src/): allowed from running or paused; if running, banks the elapsed delta as in
  pause; clamps \<open>accumulatedMs\<close> to \<open>sessionLengthMs\<close>; sets \<open>runState = stopped\<close>.
\<close>

definition markStopped :: "int \<Rightarrow> timer_state \<Rightarrow> timer_state" where
  "markStopped now ts =
     (let banked = (if runState ts = Running
                    then accumulatedMs ts + segment now ts
                    else accumulatedMs ts)
      in ts\<lparr>accumulatedMs := min banked (int (sessionLengthMs ts)),
             runState := Stopped\<rparr>)"

text \<open>
  Modelled from the spec: \<open>resetTimes\<close>, the method \<open>reset()\<close> of \<open>Defaults\<close>
  (missing from src/): sets \<open>accumulatedMs = 0\<close>, \<open>startEpochMs = now\<close>, valid from
  any state; does not change \<open>runState\<close>.
\<close>

definition resetTimes :: "int \<Rightarrow> timer_state \<Rightarrow> timer_state" where
  "resetTimes now ts = ts\<lparr>startEpochMs := Some now, accumulatedMs := 0\<rparr>"

text \<open>
  Modelled from the spec: \<open>elapsedMs\<close>, the getter \<open>ellapsed\<close> of \<open>Defaults\<close>
  (missing from src/): \<open>accumulatedMs + (runState == running ? now - startEpochMs : 0)\<close>,
  clamped to \<open>[0, sessionLengthMs]\<close>.
\<close>

definition elapsedMs :: "int \<Rightarrow> timer_state \<Rightarrow> int" where
  "elapsedMs now ts =
     max 0 (min (int (sessionLengthMs ts))
               (accumulatedMs ts + (if runState ts = Running then segment now ts else 0)))"

text \<open>
  Modelled from the spec: \<open>isSessionComplete\<close>, the getter \<open>isEllapsed\<close> of
  \<open>Defaults\<close> (missing from src/): \<open>elapsedMs() >= sessionLengthMs\<close>.
\<close>

definition isSessionComplete :: "int \<Rightarrow> timer_state \<Rightarrow> bool" where
  "isSessionComplete now ts = (int (sessionLengthMs ts) \<le> elapsedMs now ts)"

subsection \<open>Values, errors and the timer object\<close>

text \<open>
  What a method hands back: \<open>this\<close>, a boolean, or nothing (\<open>undefined\<close>).
  \<open>truthy\<close> is JavaScript's test in \<open>if (!x)\<close>.
\<close>

datatype jsval = This | Bool bool | Undefined

fun truthy :: "jsval \<Rightarrow> bool" where
  "truthy This = True"
| "truthy (Bool b) = b"
| "truthy Undefined = False"

text \<open>
  Exceptions as values. \<open>TypeError\<close> is what the engine raises when a property of
  \<open>undefined\<close> is read or a non-function is called; \<open>StepNotChanged\<close> is
  \<open>Error(messages.stepNotChanged)\<close>; \<open>Thrown m\<close> is any other error with message
  \<open>m\<close>, raised by the conversion or by a method this class does not define.
  Every value raised is an error object, so that \<open>e.message\<close> can be read.
\<close>

datatype error = TypeError | StepNotChanged | InvalidStepValue | Thrown string

fun message :: "error \<Rightarrow> string" where
  "message TypeError = ''TypeError''"
| "message StepNotChanged = ''stepNotChanged''"
| "message InvalidStepValue = ''InvalidStepValue''"
| "message (Thrown m) = m"

text \<open>
  Modelled from the spec: the list \<open>_this.events\<close> of \<open>Defaults\<close> (missing from
  src/), the six events of the notification channel.
\<close>

datatype event =
  SessionStarted | SessionStopped | SessionPaused | CurrentTime | SessionChanged | TimerReset

fun event_of :: "string \<Rightarrow> event option" where
  "event_of name =
     (if name = ''sessionStarted'' then Some SessionStarted
      else if name = ''sessionStopped'' then Some SessionStopped
      else if name = ''sessionPaused'' then Some SessionPaused
      else if name = ''currentTime'' then Some CurrentTime
      else if name = ''sessionChanged'' then Some SessionChanged
      else if name = ''timerReset'' then Some TimerReset
      else None)"

declare event_of.simps [simp del]

text \<open>
  A registration \<open>{listener: listener, method: method}\<close>: the listener's identity and
  the name of the method to invoke on it.
\<close>

type_synonym entry = "string \<times> string"

text \<open>
  One invocation of a listener's method: the registration it was made for (its event
  and its index in the array of that event) and the registration's content.
\<close>

type_synonym invocation = "(event \<times> nat) \<times> entry"

text \<open>
  The timer. \<open>priv\<close> is the private object and \<open>countDown\<close> its field of that name.
  \<open>listeners\<close> maps each event to its array; \<open>None\<close> is the hole that \<open>delete\<close>
  leaves. \<open>intervals\<close> is the host's table of active \<open>setInterval\<close> registrations:
  a handle maps to \<open>True\<close> while its callback still holds the private object and to
  \<open>False\<close> once the callback has set its \<open>_this\<close> to \<open>null\<close>. \<open>clock\<close> is what
  \<open>Date.now()\<close> returns. \<open>published\<close>, \<open>calls\<close> and \<open>warnings\<close> record what the
  timer does to the outside: the events passed to \<open>publish\<close>, the listener methods
  invoked, and the messages given to \<open>console.warn\<close>, each in order.

  A listener's method is taken to return without raising and without calling back
  into the timer.
\<close>

record timer =
  priv :: timer_state
  countDown :: "nat option"
  listeners :: "event \<Rightarrow> entry option list"
  intervals :: "nat \<Rightarrow> bool option"
  nextHandle :: nat
  clock :: int
  published :: "event list"
  calls :: "invocation list"
  warnings :: "string list"

text \<open>
  The constructor, with the step values that the defaults and the options give.
  Every event starts with an empty array (\<open>listeners[event] = []\<close>).
\<close>

definition new_timer :: "nat \<Rightarrow> nat \<Rightarrow> int \<Rightarrow> timer" where
  "new_timer session interval now =
     \<lparr>priv = \<lparr>sessionLengthMs = session, intervalMs = interval, startEpochMs = None,
              accumulatedMs = 0, nowEpochMs = now, runState = Idle\<rparr>,
      countDown = None,
      listeners = (\<lambda>_. []),
      intervals = (\<lambda>_. None),
      nextHandle = 1,
      clock = now,
      published = [],
      calls = [],
      warnings = []\<rparr>"

subsection \<open>The event channel\<close>

text \<open>
  The registrations that an array holds, each with the index \<open>push\<close> gave it (the
  index its subscription handle removes), in array order, holes left out.
\<close>

fun registered_from :: "nat \<Rightarrow> 'a option list \<Rightarrow> (nat \<times> 'a) list" where
  "registered_from i [] = []"
| "registered_from i (None # xs) = registered_from (Suc i) xs"
| "registered_from i (Some e # xs) = (i, e) # registered_from (Suc i) xs"

definition registered :: "'a option list \<Rightarrow> (nat \<times> 'a) list" where
  "registered xs = registered_from 0 xs"

text \<open>
  \<open>publish\<close> as the class calls it, with one of its own event names:
  \<open>forEach\<close> visits the array in index order, skips holes and invokes
  \<open>listener.listener[listener.method]()\<close> for each element.
\<close>

definition invocations :: "event \<Rightarrow> entry option list \<Rightarrow> invocation list" where
  "invocations ev xs = map (\<lambda>p. ((ev, fst p), snd p)) (registered xs)"

definition publish :: "event \<Rightarrow> timer \<Rightarrow> timer" where
  "publish ev s =
     s\<lparr>published := published s @ [ev],
       calls := calls s @ invocations ev (listeners s ev)\<rparr>"

text \<open>
  The public \<open>event.subscribe\<close>, \<open>event.publish\<close> and the \<open>remove\<close> of a
  subscription handle. An event name without an array makes \<open>listeners[eventName]\<close>
  undefined, and the call on it raises. The handle is the event with the index that
  \<open>push\<close> returned.
\<close>

definition event_subscribe ::
  "string \<Rightarrow> string \<Rightarrow> string \<Rightarrow> timer \<Rightarrow> (error + event \<times> nat) \<times> timer" where
  "event_subscribe listener eventName method s =
     (case event_of eventName of
        None \<Rightarrow> (Inl TypeError, s)
      | Some ev \<Rightarrow>
          (Inr (ev, length (listeners s ev)),
           s\<lparr>listeners := (listeners s)(ev := listeners s ev @ [Some (listener, method)])\<rparr>))"

definition handle_remove :: "event \<times> nat \<Rightarrow> timer \<Rightarrow> timer" where
  "handle_remove h s =
     s\<lparr>listeners := (listeners s)(fst h := (listeners s (fst h))[snd h := None])\<rparr>"

definition event_publish :: "string \<Rightarrow> timer \<Rightarrow> (error + unit) \<times> timer" where
  "event_publish eventName s =
     (case event_of eventName of
        None \<Rightarrow> (Inl TypeError, s)
      | Some ev \<Rightarrow> (Inr (), publish ev s))"

subsection \<open>The host's interval timers and clock\<close>

text \<open>
  \<open>setInterval\<close> hands out a fresh handle and registers the callback;
  \<open>clearInterval\<close> drops a registration (and does nothing for a handle that is not
  registered). Handles are positive, as the guard \<open>if (countDown)\<close> expects.
\<close>

definition setInterval :: "timer \<Rightarrow> nat \<times> timer" where
  "setInterval s =
     (nextHandle s,
      s\<lparr>intervals := (intervals s)(nextHandle s := Some True),
        nextHandle := Suc (nextHandle s)\<rparr>)"

definition clearInterval :: "nat \<Rightarrow> timer \<Rightarrow> timer" where
  "clearInterval h s = s\<lparr>intervals := (intervals s)(h := None)\<rparr>"

definition advance :: "nat \<Rightarrow> timer \<Rightarrow> timer" where
  "advance d s = s\<lparr>clock := clock s + int d\<rparr>"

subsection \<open>The methods of the class\<close>

text \<open>\<open>reset()\<close>: the private object's \<open>reset()\<close>, then \<open>timerReset\<close>.\<close>

definition reset :: "timer \<Rightarrow> (error + jsval) \<times> timer" where
  "reset s =
     (Inr Undefined, publish TimerReset (s\<lparr>priv := resetTimes (clock s) (priv s)\<rparr>))"

text \<open>
  \<open>stop()\<close>. \<open>if (countDown) clearInterval(countDown)\<close> reads the handle before the
  private object is updated.
\<close>

definition clearCountDown :: "nat option \<Rightarrow> timer \<Rightarrow> timer" where
  "clearCountDown c s =
     (case c of None \<Rightarrow> s | Some h \<Rightarrow> if h \<noteq> 0 then clearInterval h s else s)"

definition stop :: "timer \<Rightarrow> (error + jsval) \<times> timer" where
  "stop s =
     (if is_counting (priv s) \<or> is_paused (priv s) then
        let c = countDown s;
            s1 = s\<lparr>priv := markStopped (clock s) (priv s)\<rparr>;
            s2 = clearCountDown c s1
        in (Inr This, publish SessionStopped s2)
      else (Inr (Bool False), s))"

text \<open>\<open>pause()\<close>.\<close>

definition pause :: "timer \<Rightarrow> (error + jsval) \<times> timer" where
  "pause s =
     (if is_counting (priv s) then
        let c = countDown s;
            s1 = s\<lparr>priv := markPaused (clock s) (priv s)\<rparr>;
            s2 = clearCountDown c s1
        in (Inr This, publish SessionPaused s2)
      else (Inr (Bool False), s))"

text \<open>
  \<open>publishTime\<close>, the callback that \<open>start()\<close> registers; \<open>h\<close> is the handle of the
  registration that fires it. In the branch of a complete session the callback sets
  its own \<open>_this\<close> to \<open>null\<close> and calls \<open>this.stop()\<close>.
\<close>

definition publishTime :: "nat \<Rightarrow> timer \<Rightarrow> timer" where
  "publishTime h s =
     (if \<not> isSessionComplete (clock s) (priv s) then
        publish CurrentTime (s\<lparr>priv := (priv s)\<lparr>nowEpochMs := clock s\<rparr>\<rparr>)
      else snd (stop (s\<lparr>intervals := (intervals s)(h := Some False)\<rparr>)))"

text \<open>
  One firing of the registration \<open>h\<close> by the host. Nothing fires for a handle that is
  not registered. A callback that has dropped its \<open>_this\<close> raises inside the host's
  timer dispatch and leaves the timer as it is.
\<close>

definition fire :: "nat \<Rightarrow> timer \<Rightarrow> timer" where
  "fire h s =
     (case intervals s h of
        None \<Rightarrow> s
      | Some alive \<Rightarrow> if alive then publishTime h s else s)"

text \<open>
  \<open>start()\<close>. When the timer has not been paused, \<open>this.reset()\<close> runs first (and
  publishes \<open>timerReset\<close>); when it has, the banked time is kept. Then the timer is
  marked running, the callback is registered and \<open>sessionStarted\<close> is published.
\<close>

definition start :: "timer \<Rightarrow> (error + jsval) \<times> timer" where
  "start s =
     (if \<not> is_counting (priv s) then
        let s1 = (if \<not> is_paused (priv s) then snd (reset s) else s);
            s2 = s1\<lparr>priv := markRunning (clock s1) (priv s1)\<rparr>;
            (h, s3) = setInterval s2;
            s4 = s3\<lparr>countDown := Some h\<rparr>
        in (Inr This, publish SessionStarted s4)
      else (Inr (Bool False), s))"

subsection \<open>changeStep\<close>

text \<open>
  The options object. \<open>ovalue\<close> and \<open>units\<close> are read by the conversion only;
  \<open>sign\<close> and \<open>increment\<close> are \<open>None\<close> when the property is missing or not a number.
\<close>

record options =
  step :: string
  ovalue :: "int option"
  units :: "string option"
  sign :: "int option"
  increment :: "int option"

text \<open>
  Modelled from the spec: the map \<open>_this.steps\<close> of \<open>Defaults\<close> (missing from
  src/), whose keys are the step names \<open>session\<close> and \<open>interval\<close>.
\<close>

definition steps_has :: "string \<Rightarrow> bool" where
  "steps_has name = (name = ''session'' \<or> name = ''interval'')"

text \<open>The getter \<open>_this[step]\<close> for a recognized step.\<close>

definition step_value :: "string \<Rightarrow> timer_state \<Rightarrow> int" where
  "step_value name ts =
     (if name = ''session'' then int (sessionLengthMs ts) else int (intervalMs ts))"

text \<open>
  Modelled from the spec: \<open>setStep\<close> for the session, the setter
  \<open>_this.session = {value: value}\<close> of \<open>Defaults\<close> (missing from src/), given a
  value in milliseconds: validates non-negativity and fails with
  \<open>InvalidStepValue\<close> if the constraint is violated; on success, commits the new
  value.
\<close>

definition setStep_session :: "int \<Rightarrow> timer_state \<Rightarrow> error + timer_state" where
  "setStep_session v ts =
     (if v < 0 then Inl InvalidStepValue else Inr (ts\<lparr>sessionLengthMs := nat v\<rparr>))"

definition norm_sign :: "int option \<Rightarrow> int" where
  "norm_sign sg = (if sg \<noteq> Some 1 \<and> sg \<noteq> Some (- 1) then 1 else the sg)"

definition norm_increment :: "int option \<Rightarrow> int" where
  "norm_increment inc = (if inc \<noteq> Some 0 \<and> inc \<noteq> Some 1 then 0 else the inc)"

text \<open>
  The new value of the step: the converted value with its sign, plus the current value
  if \<open>increment\<close> is 1, and never below zero.
\<close>

definition new_value :: "int \<Rightarrow> int \<Rightarrow> int \<Rightarrow> int \<Rightarrow> int" where
  "new_value ms sg cur inc = (let v = ms * sg + cur * inc in if v < 0 then 0 else v)"

text \<open>The procedure of each step; the one of \<open>interval\<close> is empty in the source.\<close>

definition stepProcedure :: "string \<Rightarrow> int \<Rightarrow> timer \<Rightarrow> (error + unit) \<times> timer" where
  "stepProcedure name v s =
     (if name = ''session'' then
        (if (\<not> is_counting (priv s) \<and> \<not> is_paused (priv s))
            \<or> elapsedMs (clock s) (priv s) < v
         then (case setStep_session v (priv s) of
                 Inl e \<Rightarrow> (Inl e, s)
               | Inr ts \<Rightarrow>
                   (Inr (), publish CurrentTime (publish SessionChanged (s\<lparr>priv := ts\<rparr>))))
         else (Inr (), s))
      else (Inr (), s))"

text \<open>
  \<open>changeStep(options)\<close>. \<open>convert\<close> is \<open>_this.convert\<close> of \<open>Defaults\<close> (missing
  from src/), taken as a parameter: it gives the milliseconds of the options' value
  or raises. A call without options raises on \<open>options.step\<close>.
\<close>

definition changeStep ::
  "(options \<Rightarrow> error + int) \<Rightarrow> options option \<Rightarrow> timer \<Rightarrow> (error + jsval) \<times> timer" where
  "changeStep convert opt s =
     (case opt of
        None \<Rightarrow> (Inl TypeError, s)
      | Some options \<Rightarrow>
          if steps_has (step options) then
            let sg = norm_sign (sign options);
                inc = norm_increment (increment options);
                cur = step_value (step options) (priv s)
            in if 0 < sg \<or> (sg < 0 \<and> 0 < cur) then
                 (case convert options of
                    Inl e \<Rightarrow> (Inl e, s)
                  | Inr ms \<Rightarrow>
                      (case stepProcedure (step options) (new_value ms sg cur inc) s of
                         (Inl e, s') \<Rightarrow> (Inl e, s')
                       | (Inr _, s') \<Rightarrow> (Inr (Bool True), s')))
               else (Inr (Bool False), s)
          else (Inl StepNotChanged, s))"

subsection \<open>toggle\<close>

text \<open>
  \<open>this[method]()\<close>: the call of the property \<open>method\<close> without arguments.
  \<open>invoke_other\<close> dispatches the methods of the class other than \<open>toggle\<close>. Any
  name the class does not define (a method that \<open>createTimeMethods\<close> adds, an
  inherited one, a property that is no function, or none at all) is left to the
  parameter \<open>ext\<close>, which returns a value or raises, with the state it leaves.
\<close>

definition invoke_other ::
  "(string \<Rightarrow> timer \<Rightarrow> (error + jsval) \<times> timer) \<Rightarrow> (options \<Rightarrow> error + int) \<Rightarrow>
   string \<Rightarrow> timer \<Rightarrow> (error + jsval) \<times> timer" where
  "invoke_other ext convert method s =
     (if method = ''start'' then start s
      else if method = ''stop'' then stop s
      else if method = ''pause'' then pause s
      else if method = ''reset'' then reset s
      else if method = ''changeStep'' then changeStep convert None s
      else ext method s)"

text \<open>
  The body of \<open>toggle\<close>'s \<open>try\<close> block, \<open>if (!this[method]()) this.start()\<close>, given
  the outcome of \<open>this[method]()\<close>, and the handler \<open>console.warn(e.message)\<close>.
\<close>

definition toggle_body ::
  "((error + jsval) \<times> timer) \<Rightarrow> (error + unit) \<times> timer" where
  "toggle_body r =
     (case r of
        (Inl e, s1) \<Rightarrow> (Inl e, s1)
      | (Inr v, s1) \<Rightarrow>
          if \<not> truthy v then
            (case start s1 of (Inl e, s2) \<Rightarrow> (Inl e, s2) | (Inr _, s2) \<Rightarrow> (Inr (), s2))
          else (Inr (), s1))"

definition try_warn :: "(error + unit) \<times> timer \<Rightarrow> (error + jsval) \<times> timer" where
  "try_warn r =
     (case r of
        (Inl e, s1) \<Rightarrow> (Inr Undefined, s1\<lparr>warnings := warnings s1 @ [message e]\<rparr>)
      | (Inr _, s1) \<Rightarrow> (Inr Undefined, s1))"

text \<open>
  With the name \<open>toggle\<close> the call is \<open>this.toggle()\<close>, which runs with the default
  method \<open>stop\<close>.
\<close>

definition invoke ::
  "(string \<Rightarrow> timer \<Rightarrow> (error + jsval) \<times> timer) \<Rightarrow> (options \<Rightarrow> error + int) \<Rightarrow>
   string \<Rightarrow> timer \<Rightarrow> (error + jsval) \<times> timer" where
  "invoke ext convert method s =
     (if method = ''toggle''
      then try_warn (toggle_body (invoke_other ext convert ''stop'' s))
      else invoke_other ext convert method s)"

text \<open>\<open>toggle(method = "stop")\<close>; \<open>None\<close> is the call without argument.\<close>

definition toggle ::
  "(string \<Rightarrow> timer \<Rightarrow> (error + jsval) \<times> timer) \<Rightarrow> (options \<Rightarrow> error + int) \<Rightarrow>
   string option \<Rightarrow> timer \<Rightarrow> (error + jsval) \<times> timer" where
  "toggle ext convert m s =
     try_warn (toggle_body
       (invoke ext convert (case m of None \<Rightarrow> ''stop'' | Some name \<Rightarrow> name) s))"

subsection \<open>Runs of the timer\<close>

text \<open>
  What can happen to a timer: a call of one of its methods or of its event channel, the
  host firing a registration, and time passing.
\<close>

datatype action =
  Start | Stop | Pause | Reset
| ChangeStep "options option"
| Toggle "string option"
| Subscribe string string string
| Remove event nat
| Publish string
| Fire nat
| Advance nat

definition perform ::
  "(string \<Rightarrow> timer \<Rightarrow> (error + jsval) \<times> timer) \<Rightarrow> (options \<Rightarrow> error + int) \<Rightarrow>
   action \<Rightarrow> timer \<Rightarrow> timer" where
  "perform ext convert a s =
     (case a of
        Start \<Rightarrow> snd (start s)
      | Stop \<Rightarrow> snd (stop s)
      | Pause \<Rightarrow> snd (pause s)
      | Reset \<Rightarrow> snd (reset s)
      | ChangeStep opt \<Rightarrow> snd (changeStep convert opt s)
      | Toggle m \<Rightarrow> snd (toggle ext convert m s)
      | Subscribe l name m \<Rightarrow> snd (event_subscribe l name m s)
      | Remove ev i \<Rightarrow> handle_remove (ev, i) s
      | Publish name \<Rightarrow> snd (event_publish name s)
      | Fire h \<Rightarrow> fire h s
      | Advance d \<Rightarrow> advance d s)"

fun run ::
  "(string \<Rightarrow> timer \<Rightarrow> (error + jsval) \<times> timer) \<Rightarrow> (options \<Rightarrow> error + int) \<Rightarrow>
   action list \<Rightarrow> timer \<Rightarrow> timer" where
  "run ext convert [] s = s"
| "run ext convert (a # as) s = run ext convert as (perform ext convert a s)"

text \<open>
  A stretch of time in which nobody calls the timer: the clock moves and the host may
  fire registrations at any moment. \<open>duration\<close> is how far the clock moves.
\<close>

fun env_action :: "action \<Rightarrow> bool" where
  "env_action (Fire h) = True"
| "env_action (Advance d) = True"
| "env_action _ = False"

fun duration :: "action list \<Rightarrow> nat" where
  "duration [] = 0"
| "duration (Advance d # as) = d + duration as"
| "duration (a # as) = duration as"

text \<open>
  A method outside the class that only reads the timer, as the time methods of
  \<open>createTimeMethods\<close> do.
\<close>

definition readonly :: "(string \<Rightarrow> timer \<Rightarrow> (error + jsval) \<times> timer) \<Rightarrow> bool" where
  "readonly ext = (\<forall>m s. snd (ext m s) = s)"

text \<open>The states a timer can be in: built by the constructor, then any run.\<close>

inductive reachable :: "timer \<Rightarrow> bool" where
  reachable_new: "reachable (new_timer session interval now)"
| reachable_step: "reachable s \<Longrightarrow> readonly ext \<Longrightarrow> reachable (perform ext convert a s)"

text \<open>
  The invariant of the registration: a running timer has exactly the registration
  that \<open>countDown\<close> names, with its callback intact; any other timer has none.
\<close>

definition timer_inv :: "timer \<Rightarrow> bool" where
  "timer_inv s =
     (0 < nextHandle s \<and>
      (if runState (priv s) = Running
       then (\<exists>h. 0 < h \<and> countDown s = Some h \<and> intervals s = (\<lambda>_. None)(h := Some True))
       else intervals s = (\<lambda>_. None)))"

text \<open>
  Two summaries of a timer used to follow a run: running with \<open>acc\<close> milliseconds
  banked and \<open>e\<close> milliseconds into the current segment, and paused with \<open>acc\<close>
  milliseconds banked; both with the session length \<open>n\<close> and the invariant.
\<close>

definition running_at :: "int \<Rightarrow> int \<Rightarrow> nat \<Rightarrow> timer \<Rightarrow> bool" where
  "running_at acc e n s =
     (timer_inv s \<and> runState (priv s) = Running \<and> accumulatedMs (priv s) = acc \<and>
      sessionLengthMs (priv s) = n \<and> startEpochMs (priv s) = Some (clock s - e))"

definition paused_at :: "int \<Rightarrow> nat \<Rightarrow> timer \<Rightarrow> bool" where
  "paused_at acc n s =
     (timer_inv s \<and> runState (priv s) = Paused \<and> accumulatedMs (priv s) = acc \<and>
      sessionLengthMs (priv s) = n)"

text \<open>
  A removed registration: its slot in the array of its event is a hole.
\<close>

definition removed :: "event \<times> nat \<Rightarrow> timer \<Rightarrow> bool" where
  "removed h s = (snd h < length (listeners s (fst h)) \<and> listeners s (fst h) ! snd h = None)"

text \<open>
  From \<open>s\<close> to \<open>s'\<close> the registration \<open>h\<close> stays removed and none of the
  invocations made in between is one of \<open>h\<close>.
\<close>

definition not_invoked :: "event \<times> nat \<Rightarrow> timer \<Rightarrow> timer \<Rightarrow> bool" where
  "not_invoked h s s' =
     (removed h s' \<and> (\<exists>xs. calls s' = calls s @ xs \<and> h \<notin> fst ` set xs))"

text \<open>
  Sample parameters for evaluation: no method beyond those of the class (calling
  any other name raises), and a conversion that takes the value as milliseconds.
\<close>

definition no_ext :: "string \<Rightarrow> timer \<Rightarrow> (error + jsval) \<times> timer" where
  "no_ext m s = (Inl TypeError, s)"

definition ms_convert :: "options \<Rightarrow> error + int" where
  "ms_convert opts =
     (case ovalue opts of None \<Rightarrow> Inl (Thrown ''InvalidValue'') | Some v \<Rightarrow> Inr v)"

definition session_options :: "int \<Rightarrow> int option \<Rightarrow> int option \<Rightarrow> options" where
  "session_options v sg inc =
     \<lparr>step = ''session'', ovalue = Some v, units = None, sign = sg, increment = inc\<rparr>"

text \<open>
  Sample timers for evaluation, with a session of 5000 ms and an interval of 1000 ms:
  one that has been running for 3000 ms and one that has been running for 7000 ms
  without a tick.
\<close>

definition running_3000 :: timer where
  "running_3000 = run no_ext ms_convert [Start, Advance 3000] (new_timer 5000 1000 0)"

definition running_7000 :: timer where
  "running_7000 = run no_ext ms_convert [Start, Advance 7000] (new_timer 5000 1000 0)"

section \<open>Properties of the embedding\<close>

subsection \<open>Unfolding\<close>

lemmas ts_defs = is_counting_def is_paused_def segment_def markRunning_def markPaused_def
  markStopped_def resetTimes_def elapsedMs_def isSessionComplete_def

lemmas op_defs = publish_def setInterval_def clearInterval_def clearCountDown_def advance_def
  reset_def stop_def pause_def publishTime_def fire_def start_def

lemmas cs_defs = steps_has_def step_value_def setStep_session_def norm_sign_def
  norm_increment_def stepProcedure_def changeStep_def session_options_def ms_convert_def new_value_def

lemmas tg_defs = invoke_def invoke_other_def toggle_body_def try_warn_def toggle_def no_ext_def

lemma run_append: "run ext convert (xs @ ys) s = run ext convert ys (run ext convert xs s)"
  by (induction xs arbitrary: s) simp_all

subsection \<open>changeStep and toggle\<close>

lemma new_value_nonneg: "0 \<le> new_value ms sg cur inc"
  by (simp add: new_value_def Let_def)

lemma stepProcedure_session_active:
  "is_counting (priv s) \<or> is_paused (priv s) \<Longrightarrow> 0 \<le> v \<Longrightarrow>
   stepProcedure ''session'' v s =
     (Inr (), if elapsedMs (clock s) (priv s) < v
              then publish CurrentTime (publish SessionChanged
                     (s\<lparr>priv := (priv s)\<lparr>sessionLengthMs := nat v\<rparr>\<rparr>))
              else s)"
  by (auto simp add: stepProcedure_def setStep_session_def)

lemma start_returns: "\<exists>v. fst (start s) = Inr v"
  by (simp add: start_def Let_def split: prod.splits)

lemma start_result:
  "fst (start s) = Inr (if is_counting (priv s) then Bool False else This)"
  by (simp add: start_def Let_def split: prod.splits)

lemma start_counting: "is_counting (priv s) \<Longrightarrow> start s = (Inr (Bool False), s)"
  by (simp add: start_def)

lemma stop_result:
  "fst (stop s) = Inr (if is_counting (priv s) \<or> is_paused (priv s) then This else Bool False)"
  by (simp add: stop_def Let_def)

lemma pause_result:
  "fst (pause s) = Inr (if is_counting (priv s) then This else Bool False)"
  by (simp add: pause_def Let_def)

lemma toggle_after:
  "r = (Inr v, s1) \<Longrightarrow>
   try_warn (toggle_body r) = (Inr Undefined, if truthy v then s1 else snd (start s1))"
  using start_returns [of s1]
  by (cases "start s1") (auto simp add: toggle_body_def try_warn_def)

lemma toggle_after_error:
  "r = (Inl e, s1) \<Longrightarrow>
   try_warn (toggle_body r) = (Inr Undefined, s1\<lparr>warnings := warnings s1 @ [message e]\<rparr>)"
  by (simp add: toggle_body_def try_warn_def)

lemma toggle_start:
  "try_warn (toggle_body (start s))
   = (Inr Undefined, if is_counting (priv s) then s else snd (start s))"
proof (cases "is_counting (priv s)")
  case True
  then have "start s = (Inr (Bool False), s)" by (rule start_counting)
  with True show ?thesis by (simp add: toggle_after [of _ "Bool False" s])
next
  case False
  then have "start s = (Inr This, snd (start s))"
    using start_result [of s] by (simp add: prod_eq_iff)
  with False show ?thesis by (simp add: toggle_after [of _ This "snd (start s)"])
qed

lemma toggle_stop:
  "try_warn (toggle_body (stop s))
   = (Inr Undefined,
      if is_counting (priv s) \<or> is_paused (priv s) then snd (stop s) else snd (start s))"
proof (cases "is_counting (priv s) \<or> is_paused (priv s)")
  case True
  then have "stop s = (Inr This, snd (stop s))"
    using stop_result [of s] by (simp add: prod_eq_iff)
  with True show ?thesis by (simp add: toggle_after [of _ This "snd (stop s)"])
next
  case False
  then have "stop s = (Inr (Bool False), s)" by (simp add: stop_def)
  with False show ?thesis by (simp add: toggle_after [of _ "Bool False" s])
qed

lemma toggle_pause:
  "try_warn (toggle_body (pause s))
   = (Inr Undefined, if is_counting (priv s) then snd (pause s) else snd (start s))"
proof (cases "is_counting (priv s)")
  case True
  then have "pause s = (Inr This, snd (pause s))"
    using pause_result [of s] by (simp add: prod_eq_iff)
  with True show ?thesis by (simp add: toggle_after [of _ This "snd (pause s)"])
next
  case False
  then have "pause s = (Inr (Bool False), s)" by (simp add: pause_def)
  with False show ?thesis by (simp add: toggle_after [of _ "Bool False" s])
qed

lemma toggle_reset:
  "try_warn (toggle_body (reset s)) = (Inr Undefined, snd (start (snd (reset s))))"
proof -
  have "reset s = (Inr Undefined, snd (reset s))" by (simp add: reset_def)
  then show ?thesis by (simp add: toggle_after [of _ Undefined "snd (reset s)"])
qed

lemma toggle_ext:
  "try_warn (toggle_body (ext method s))
   = (Inr Undefined,
      case ext method s of
        (Inl e, s1) \<Rightarrow> s1\<lparr>warnings := warnings s1 @ [message e]\<rparr>
      | (Inr v, s1) \<Rightarrow> if truthy v then s1 else snd (start s1))"
proof (cases "ext method s")
  case (Pair r s1)
  then show ?thesis
    by (cases r) (simp_all add: toggle_after toggle_after_error)
qed

subsection \<open>The registration invariant\<close>

lemma timer_inv_new: "timer_inv (new_timer session interval now)"
  by (simp add: timer_inv_def new_timer_def)

lemma timer_inv_publish: "timer_inv (publish ev s) = timer_inv s"
  by (simp add: timer_inv_def publish_def)

lemma timer_inv_reset: "timer_inv s \<Longrightarrow> timer_inv (snd (reset s))"
  by (simp add: reset_def timer_inv_publish) (simp add: timer_inv_def resetTimes_def)

lemma timer_inv_start: "timer_inv s \<Longrightarrow> timer_inv (snd (start s))"
  by (auto simp add: start_def Let_def timer_inv_publish is_counting_def is_paused_def reset_def setInterval_def split: prod.splits)
     (auto simp add: timer_inv_def markRunning_def publish_def resetTimes_def)

lemma clearCountDown_fields [simp]:
  "priv (clearCountDown c s) = priv s"
  "countDown (clearCountDown c s) = countDown s"
  "nextHandle (clearCountDown c s) = nextHandle s"
  "clock (clearCountDown c s) = clock s"
  "published (clearCountDown c s) = published s"
  "listeners (clearCountDown c s) = listeners s"
  "calls (clearCountDown c s) = calls s"
  by (simp_all add: clearCountDown_def clearInterval_def split: option.splits)

lemma clearCountDown_none:
  "intervals s = (\<lambda>_. None) \<Longrightarrow> intervals (clearCountDown c s) = (\<lambda>_. None)"
  by (auto simp add: clearCountDown_def clearInterval_def split: option.splits)

lemma clearCountDown_one:
  "0 < h \<Longrightarrow> intervals s = (\<lambda>_. None)(h := Some b)
   \<Longrightarrow> intervals (clearCountDown (Some h) s) = (\<lambda>_. None)"
  by (auto simp add: clearCountDown_def clearInterval_def)

lemma intervals_not_running:
  "timer_inv s \<Longrightarrow> runState (priv s) \<noteq> Running \<Longrightarrow> intervals s = (\<lambda>_. None)"
  by (simp add: timer_inv_def)

lemma intervals_running:
  "timer_inv s \<Longrightarrow> runState (priv s) = Running
   \<Longrightarrow> \<exists>h. 0 < h \<and> countDown s = Some h \<and> intervals s = (\<lambda>_. None)(h := Some True)"
  by (simp add: timer_inv_def)

lemma intervals_after_clear:
  assumes "timer_inv s"
  shows "intervals (clearCountDown (countDown s) (s\<lparr>priv := p\<rparr>)) = (\<lambda>_. None)"
proof (cases "runState (priv s) = Running")
  case True
  with assms obtain h where "0 < h" "countDown s = Some h" "intervals s = (\<lambda>_. None)(h := Some True)"
    using intervals_running by blast
  then show ?thesis by (simp add: clearCountDown_one)
next
  case False
  with assms have "intervals s = (\<lambda>_. None)" by (rule intervals_not_running)
  then show ?thesis by (simp add: clearCountDown_none)
qed

lemma timer_inv_stop: "timer_inv s \<Longrightarrow> timer_inv (snd (stop s))"
proof -
  assume inv: "timer_inv s"
  then have "0 < nextHandle s" by (simp add: timer_inv_def)
  with inv show ?thesis
    by (simp add: stop_def Let_def timer_inv_publish)
       (simp add: timer_inv_def intervals_after_clear markStopped_def Let_def)
qed

lemma timer_inv_pause: "timer_inv s \<Longrightarrow> timer_inv (snd (pause s))"
proof -
  assume inv: "timer_inv s"
  then have "0 < nextHandle s" by (simp add: timer_inv_def)
  with inv show ?thesis
    by (simp add: pause_def Let_def timer_inv_publish)
       (simp add: timer_inv_def intervals_after_clear markPaused_def)
qed

lemma stop_completing:
  assumes "timer_inv s" and "intervals s h = Some True"
  shows "snd (stop (s\<lparr>intervals := (intervals s)(h := Some False)\<rparr>)) =
         publish SessionStopped
           (s\<lparr>priv := markStopped (clock s) (priv s), intervals := (\<lambda>_. None)\<rparr>)"
proof -
  from assms have run: "runState (priv s) = Running"
    by (auto simp add: timer_inv_def split: if_splits)
  with assms obtain k where k: "0 < k" "countDown s = Some k" "intervals s = (\<lambda>_. None)(k := Some True)"
    by (auto simp add: timer_inv_def)
  with assms(2) have "h = k" by (auto split: if_splits)
  with k run show ?thesis
    by (simp add: stop_def is_counting_def Let_def clearCountDown_def clearInterval_def)
qed

lemma timer_inv_fire: "timer_inv s \<Longrightarrow> timer_inv (fire h s)"
proof -
  assume inv: "timer_inv s"
  show ?thesis
  proof (cases "intervals s h = Some True")
    case True
    show ?thesis
    proof (cases "isSessionComplete (clock s) (priv s)")
      case c: True
      with True inv show ?thesis
        by (simp add: fire_def publishTime_def stop_completing timer_inv_publish)
           (simp add: timer_inv_def markStopped_def Let_def)
    next
      case False
      with True inv show ?thesis
        by (simp add: fire_def publishTime_def timer_inv_publish) (simp add: timer_inv_def)
    qed
  next
    case False
    with inv show ?thesis by (auto simp add: fire_def split: option.splits)
  qed
qed

lemma timer_inv_advance: "timer_inv s \<Longrightarrow> timer_inv (advance d s)"
  by (simp add: timer_inv_def advance_def)

lemma timer_inv_changeStep: "timer_inv s \<Longrightarrow> timer_inv (snd (changeStep convert opt s))"
  by (auto simp add: changeStep_def Let_def stepProcedure_def setStep_session_def timer_inv_publish
      split: option.splits sum.splits prod.splits if_splits)
     (auto simp add: timer_inv_def)

lemma timer_inv_warn: "timer_inv (s\<lparr>warnings := w\<rparr>) = timer_inv s"
  by (simp add: timer_inv_def)

lemma timer_inv_invoke_other:
  "timer_inv s \<Longrightarrow> readonly ext \<Longrightarrow> timer_inv (snd (invoke_other ext convert method s))"
  by (simp add: invoke_other_def timer_inv_start timer_inv_stop timer_inv_pause timer_inv_reset
      timer_inv_changeStep readonly_def)

lemma timer_inv_toggle_body: "timer_inv (snd r) \<Longrightarrow> timer_inv (snd (toggle_body r))"
  using timer_inv_start [of "snd r"]
  by (auto simp add: toggle_body_def split: prod.splits sum.splits)

lemma timer_inv_try_warn: "timer_inv (snd r) \<Longrightarrow> timer_inv (snd (try_warn r))"
  by (auto simp add: try_warn_def timer_inv_warn split: prod.splits sum.splits)

lemma timer_inv_invoke:
  "timer_inv s \<Longrightarrow> readonly ext \<Longrightarrow> timer_inv (snd (invoke ext convert method s))"
  by (simp add: invoke_def timer_inv_invoke_other timer_inv_toggle_body timer_inv_try_warn)

lemma timer_inv_toggle:
  "timer_inv s \<Longrightarrow> readonly ext \<Longrightarrow> timer_inv (snd (toggle ext convert m s))"
  by (simp add: toggle_def timer_inv_invoke timer_inv_toggle_body timer_inv_try_warn)

lemma timer_inv_listeners: "timer_inv (s\<lparr>listeners := l\<rparr>) = timer_inv s"
  by (simp add: timer_inv_def)

lemma timer_inv_perform:
  "timer_inv s \<Longrightarrow> readonly ext \<Longrightarrow> timer_inv (perform ext convert a s)"
  by (cases a)
     (simp_all add: perform_def timer_inv_start timer_inv_stop timer_inv_pause timer_inv_reset
       timer_inv_changeStep timer_inv_toggle timer_inv_fire timer_inv_advance
       event_subscribe_def handle_remove_def event_publish_def timer_inv_listeners
       timer_inv_publish split: option.splits)

lemma reachable_inv: "reachable s \<Longrightarrow> timer_inv s"
  by (induction rule: reachable.induct) (simp_all add: timer_inv_new timer_inv_perform)

lemma readonly_no_ext: "readonly no_ext"
  by (simp add: readonly_def no_ext_def)

lemma reachable_run:
  "reachable s \<Longrightarrow> readonly ext \<Longrightarrow> reachable (run ext convert acts s)"
  by (induction acts arbitrary: s) (simp_all add: reachable_step)

lemma reachable_running_3000: "reachable running_3000"
  unfolding running_3000_def by (intro reachable_run reachable_new readonly_no_ext)

lemma reachable_running_7000: "reachable running_7000"
  unfolding running_7000_def by (intro reachable_run reachable_new readonly_no_ext)

subsection \<open>Time passing\<close>

lemma fire_currentTime:
  "length (filter (\<lambda>e. e = CurrentTime) (published (fire h s)))
   \<le> Suc (length (filter (\<lambda>e. e = CurrentTime) (published s)))"
  by (simp add: fire_def publishTime_def publish_def stop_def Let_def
      split: option.splits)

lemma run_env_not_running:
  "timer_inv s \<Longrightarrow> runState (priv s) \<noteq> Running \<Longrightarrow> list_all env_action acts
   \<Longrightarrow> run ext convert acts s = s\<lparr>clock := clock s + int (duration acts)\<rparr>"
proof (induction acts arbitrary: s)
  case Nil
  then show ?case by simp
next
  case (Cons a acts)
  from Cons.prems have none: "intervals s = (\<lambda>_. None)" by (simp add: intervals_not_running)
  show ?case
  proof (cases a)
    case (Fire h)
    with none have "perform ext convert a s = s" by (simp add: perform_def fire_def)
    with Cons Fire show ?thesis by simp
  next
    case (Advance d)
    then have p: "perform ext convert a s = s\<lparr>clock := clock s + int d\<rparr>"
      by (simp add: perform_def advance_def)
    have "timer_inv (s\<lparr>clock := clock s + int d\<rparr>)"
      using Cons.prems(1) by (simp add: timer_inv_def)
    with Cons Advance p show ?thesis by simp
  qed (use Cons.prems in simp_all)
qed

lemma start_fresh:
  assumes "timer_inv s" and "\<not> is_counting (priv s)" and "\<not> is_paused (priv s)"
  shows "running_at 0 0 (sessionLengthMs (priv s)) (snd (start s))"
proof -
  have "timer_inv (snd (start s))" using assms(1) by (rule timer_inv_start)
  moreover have "runState (priv (snd (start s))) = Running \<and>
      accumulatedMs (priv (snd (start s))) = 0 \<and>
      sessionLengthMs (priv (snd (start s))) = sessionLengthMs (priv s) \<and>
      startEpochMs (priv (snd (start s))) = Some (clock (snd (start s)))"
    using assms(2,3)
    by (simp add: start_def Let_def reset_def publish_def setInterval_def markRunning_def
        resetTimes_def split: prod.splits)
  ultimately show ?thesis by (simp add: running_at_def)
qed

lemma start_resume:
  assumes "paused_at acc n s"
  shows "running_at acc 0 n (snd (start s))"
proof -
  from assms have inv: "timer_inv s" and p: "runState (priv s) = Paused"
    and a: "accumulatedMs (priv s) = acc" and n: "sessionLengthMs (priv s) = n"
    by (simp_all add: paused_at_def)
  have "timer_inv (snd (start s))" using inv by (rule timer_inv_start)
  moreover have "runState (priv (snd (start s))) = Running \<and>
      accumulatedMs (priv (snd (start s))) = acc \<and>
      sessionLengthMs (priv (snd (start s))) = n \<and>
      startEpochMs (priv (snd (start s))) = Some (clock (snd (start s)))"
    using p a n
    by (simp add: start_def Let_def is_counting_def is_paused_def publish_def setInterval_def
        markRunning_def split: prod.splits)
  ultimately show ?thesis by (simp add: running_at_def)
qed

lemma pause_running:
  assumes "running_at acc e n s"
  shows "paused_at (acc + e) n (snd (pause s))"
proof -
  from assms have inv: "timer_inv s" by (simp add: running_at_def)
  have "timer_inv (snd (pause s))" using inv by (rule timer_inv_pause)
  moreover have "runState (priv (snd (pause s))) = Paused \<and>
      accumulatedMs (priv (snd (pause s))) = acc + e \<and>
      sessionLengthMs (priv (snd (pause s))) = n"
    using assms
    by (simp add: running_at_def pause_def Let_def is_counting_def publish_def markPaused_def
        segment_def)
  ultimately show ?thesis by (simp add: paused_at_def)
qed

lemma paused_env:
  assumes "paused_at acc n s" and "list_all env_action acts"
  shows "paused_at acc n (run ext convert acts s)"
proof -
  from assms(1) have inv: "timer_inv s" and p: "runState (priv s) \<noteq> Running"
    by (simp_all add: paused_at_def)
  have "run ext convert acts s = s\<lparr>clock := clock s + int (duration acts)\<rparr>"
    using inv p assms(2) by (rule run_env_not_running)
  with assms(1) show ?thesis by (simp add: paused_at_def timer_inv_def)
qed

lemma elapsed_running:
  "running_at acc e n s \<Longrightarrow> 0 \<le> acc + e
   \<Longrightarrow> elapsedMs (clock s) (priv s) = min (int n) (acc + e)"
  by (simp add: running_at_def elapsedMs_def segment_def)

lemma running_advance:
  "running_at acc e n s \<Longrightarrow> running_at acc (e + int d) n (advance d s)"
  by (simp add: running_at_def advance_def timer_inv_def)

lemma not_complete:
  "running_at acc e n s \<Longrightarrow> 0 \<le> acc + e
   \<Longrightarrow> isSessionComplete (clock s) (priv s) = (int n \<le> acc + e)"
  by (simp add: isSessionComplete_def elapsed_running) (simp add: running_at_def)

lemma running_fire:
  assumes "running_at acc e n s"
    and "\<not> isSessionComplete (clock s) (priv s) \<or> intervals s h \<noteq> Some True"
  shows "running_at acc e n (fire h s)"
proof -
  from assms(1) have inv: "timer_inv s" by (simp add: running_at_def)
  have "timer_inv (fire h s)" using inv by (rule timer_inv_fire)
  moreover have "runState (priv (fire h s)) = Running \<and>
      accumulatedMs (priv (fire h s)) = acc \<and> sessionLengthMs (priv (fire h s)) = n \<and>
      startEpochMs (priv (fire h s)) = Some (clock (fire h s) - e)"
    using assms
    by (auto simp add: running_at_def fire_def publishTime_def publish_def split: option.splits)
  ultimately show ?thesis by (simp add: running_at_def)
qed

lemma running_env:
  "running_at acc e n s \<Longrightarrow> 0 \<le> acc + e \<Longrightarrow> list_all env_action acts
   \<Longrightarrow> acc + e + int (duration acts) < int n
   \<Longrightarrow> running_at acc (e + int (duration acts)) n (run ext convert acts s)"
proof (induction acts arbitrary: s e)
  case Nil
  then show ?case by simp
next
  case (Cons a acts)
  show ?case
  proof (cases a)
    case (Fire h)
    have "\<not> isSessionComplete (clock s) (priv s)"
      using Cons.prems by (simp add: not_complete)
    with Cons.prems(1) have "running_at acc e n (fire h s)"
      by (intro running_fire) simp_all
    with Cons.IH [of e "fire h s"] Cons.prems Fire show ?thesis
      by (simp add: perform_def)
  next
    case (Advance d)
    have "running_at acc (e + int d) n (advance d s)"
      using Cons.prems(1) by (rule running_advance)
    with Cons.IH [of "e + int d" "advance d s"] Cons.prems Advance show ?thesis
      by (simp add: perform_def add.assoc)
  qed (use Cons.prems in simp_all)
qed

lemma fire_completes:
  assumes "running_at acc e n s" and "int n \<le> acc + e" and "intervals s h = Some True"
    and "list_all env_action acts"
  shows "elapsedMs (clock (run ext convert acts (fire h s))) (priv (run ext convert acts (fire h s)))
         = int n"
proof -
  from assms(1) have inv: "timer_inv s" and r: "runState (priv s) = Running"
    and a: "accumulatedMs (priv s) = acc" and n: "sessionLengthMs (priv s) = n"
    and st: "startEpochMs (priv s) = Some (clock s - e)"
    by (simp_all add: running_at_def)
  have "0 \<le> acc + e" using assms(2) by simp
  with assms(1,2) have c: "isSessionComplete (clock s) (priv s)"
    by (simp add: not_complete)
  have inv': "timer_inv (fire h s)" using inv by (rule timer_inv_fire)
  have f: "fire h s = publish SessionStopped
         (s\<lparr>priv := markStopped (clock s) (priv s), intervals := (\<lambda>_. None)\<rparr>)"
    using assms(3) c by (simp add: fire_def publishTime_def stop_completing [OF inv])
  have nr: "runState (priv (fire h s)) \<noteq> Running"
    by (simp add: f publish_def markStopped_def Let_def)
  have "run ext convert acts (fire h s) = (fire h s)\<lparr>clock := clock (fire h s) + int (duration acts)\<rparr>"
    using inv' nr assms(4) by (rule run_env_not_running)
  then show ?thesis
    using r a n st assms(2)
    by (simp add: f publish_def markStopped_def Let_def elapsedMs_def segment_def)
qed

lemma running_env_elapsed:
  "running_at acc e n s \<Longrightarrow> 0 \<le> acc + e \<Longrightarrow> list_all env_action acts
   \<Longrightarrow> acc + e + int (duration acts) \<le> int n
   \<Longrightarrow> elapsedMs (clock (run ext convert acts s)) (priv (run ext convert acts s))
       = acc + e + int (duration acts)"
proof (induction acts arbitrary: s e)
  case Nil
  then show ?case by (simp add: elapsed_running)
next
  case (Cons a acts)
  show ?case
  proof (cases a)
    case (Fire h)
    show ?thesis
    proof (cases "isSessionComplete (clock s) (priv s) \<and> intervals s h = Some True")
      case True
      with Cons.prems have full: "int n \<le> acc + e" by (simp add: not_complete)
      with Cons.prems have "acc + e + int (duration acts) = int n" using Fire by simp
      moreover have "elapsedMs (clock (run ext convert acts (fire h s)))
          (priv (run ext convert acts (fire h s))) = int n"
        using Cons.prems(1) full True Cons.prems(3) by (intro fire_completes) simp_all
      ultimately show ?thesis using Fire by (simp add: perform_def)
    next
      case False
      with Cons.prems(1) have "running_at acc e n (fire h s)"
        by (intro running_fire) auto
      with Cons.IH [of e "fire h s"] Cons.prems Fire show ?thesis
        by (simp add: perform_def)
    qed
  next
    case (Advance d)
    have "running_at acc (e + int d) n (advance d s)"
      using Cons.prems(1) by (rule running_advance)
    with Cons.IH [of "e + int d" "advance d s"] Cons.prems Advance show ?thesis
      by (simp add: perform_def add.assoc)
  qed (use Cons.prems in simp_all)
qed

text \<open>
  Why the first stretch of a pause and resume must stay below the session length: a
  tick at the very end of a full session stops the timer, \<open>pause()\<close> then does
  nothing, and the next \<open>start()\<close> resets the elapsed time.
\<close>

lemma full_session_then_restart:
  "elapsedMs
     (clock (run no_ext ms_convert
        [Start, Advance 5000, Fire 1, Pause, Advance 1000, Start] (new_timer 5000 1000 0)))
     (priv (run no_ext ms_convert
        [Start, Advance 5000, Fire 1, Pause, Advance 1000, Start] (new_timer 5000 1000 0)))
   = 0"
  by (simp add: perform_def new_timer_def ts_defs op_defs Let_def)

subsection \<open>Registrations and invocations\<close>

lemma registered_from_append:
  "registered_from i (xs @ ys) = registered_from i xs @ registered_from (i + length xs) ys"
  by (induction i xs rule: registered_from.induct) simp_all

lemma registered_from_lower: "p \<in> set (registered_from i xs) \<Longrightarrow> i \<le> fst p"
  by (induction i xs rule: registered_from.induct) auto

lemma registered_from_keep:
  "filter (\<lambda>p. fst p \<noteq> i) (registered_from (Suc i) xs) = registered_from (Suc i) xs"
  by (rule filter_True) (auto dest: registered_from_lower)

lemma registered_from_update:
  "registered_from i (xs[k := None]) = filter (\<lambda>p. fst p \<noteq> i + k) (registered_from i xs)"
proof (induction i xs arbitrary: k rule: registered_from.induct)
  case (1 i)
  then show ?case by simp
next
  case (2 i xs)
  then show ?case by (cases k) (simp_all add: registered_from_keep)
next
  case (3 i e xs)
  then show ?case by (cases k) (simp_all add: registered_from_keep)
qed

lemma registered_from_sorted: "sorted_wrt (<) (map fst (registered_from i xs))"
  by (induction i xs rule: registered_from.induct) (auto dest: registered_from_lower)

lemma registered_from_hole:
  "k < length xs \<Longrightarrow> xs ! k = None \<Longrightarrow> i + k \<notin> fst ` set (registered_from i xs)"
proof (induction i xs arbitrary: k rule: registered_from.induct)
  case (1 i)
  then show ?case by simp
next
  case (2 i xs)
  show ?case
  proof (cases k)
    case 0
    then show ?thesis by (auto dest: registered_from_lower)
  next
    case (Suc j)
    with 2 show ?thesis by simp
  qed
next
  case (3 i e xs)
  show ?case
  proof (cases k)
    case 0
    with 3 show ?thesis by simp
  next
    case (Suc j)
    with 3 show ?thesis by auto
  qed
qed

lemma registered_subscribe:
  "registered (xs @ [Some e]) = registered xs @ [(length xs, e)]"
  by (simp add: registered_def registered_from_append)

lemma registered_remove:
  "registered (xs[i := None]) = filter (\<lambda>p. fst p \<noteq> i) (registered xs)"
  using registered_from_update [of 0 xs i] by (simp add: registered_def)

lemma registered_sorted: "sorted_wrt (<) (map fst (registered xs))"
  by (simp add: registered_def registered_from_sorted)

lemma registered_hole:
  "i < length xs \<Longrightarrow> xs ! i = None \<Longrightarrow> i \<notin> fst ` set (registered xs)"
  using registered_from_hole [of i xs 0] by (simp add: registered_def)

lemma invocations_hole:
  "removed h s \<Longrightarrow> h \<notin> fst ` set (invocations ev (listeners s ev))"
proof
  assume r: "removed h s" and "h \<in> fst ` set (invocations ev (listeners s ev))"
  then obtain p where p: "p \<in> set (registered (listeners s ev))" and h: "h = (ev, fst p)"
    by (auto simp add: invocations_def)
  from r h have "fst p \<notin> fst ` set (registered (listeners s ev))"
    by (intro registered_hole) (simp_all add: removed_def)
  with p show False by blast
qed

lemma removed_update [simp]:
  "removed h (s\<lparr>priv := p\<rparr>) = removed h s"
  "removed h (s\<lparr>countDown := c\<rparr>) = removed h s"
  "removed h (s\<lparr>intervals := iv\<rparr>) = removed h s"
  "removed h (s\<lparr>nextHandle := n\<rparr>) = removed h s"
  "removed h (s\<lparr>clock := t\<rparr>) = removed h s"
  "removed h (s\<lparr>published := evs\<rparr>) = removed h s"
  "removed h (s\<lparr>calls := cs\<rparr>) = removed h s"
  "removed h (s\<lparr>warnings := ws\<rparr>) = removed h s"
  by (simp_all add: removed_def)

lemma not_invoked_refl: "removed h s \<Longrightarrow> not_invoked h s s"
  by (simp add: not_invoked_def)

lemma not_invoked_trans:
  "not_invoked h s s1 \<Longrightarrow> not_invoked h s1 s2 \<Longrightarrow> not_invoked h s s2"
  by (auto simp add: not_invoked_def)

lemma not_invoked_same:
  "removed h s \<Longrightarrow> listeners s' = listeners s \<Longrightarrow> calls s' = calls s \<Longrightarrow> not_invoked h s s'"
  by (simp add: not_invoked_def removed_def)

lemma not_invoked_publish: "removed h s \<Longrightarrow> not_invoked h s (publish ev s)"
  by (simp add: not_invoked_def publish_def invocations_hole)

lemma not_invoked_publish_after:
  "not_invoked h s s1 \<Longrightarrow> not_invoked h s (publish ev s1)"
proof -
  assume a: "not_invoked h s s1"
  then have "removed h s1" by (simp add: not_invoked_def)
  then have "not_invoked h s1 (publish ev s1)" by (rule not_invoked_publish)
  with a show ?thesis by (rule not_invoked_trans)
qed

lemma not_invoked_reset: "removed h s \<Longrightarrow> not_invoked h s (snd (reset s))"
  by (simp add: reset_def not_invoked_publish_after not_invoked_same)

lemma not_invoked_stop: "removed h s \<Longrightarrow> not_invoked h s (snd (stop s))"
  by (simp add: stop_def Let_def not_invoked_publish_after not_invoked_same not_invoked_refl)

lemma not_invoked_pause: "removed h s \<Longrightarrow> not_invoked h s (snd (pause s))"
  by (simp add: pause_def Let_def not_invoked_publish_after not_invoked_same not_invoked_refl)

lemma not_invoked_start: "removed h s \<Longrightarrow> not_invoked h s (snd (start s))"
proof -
  assume r: "removed h s"
  define s1 where "s1 = (if \<not> is_paused (priv s) then snd (reset s) else s)"
  define s4 where "s4 = s1\<lparr>priv := markRunning (clock s1) (priv s1),
      intervals := (intervals s1)(nextHandle s1 := Some True),
      nextHandle := Suc (nextHandle s1), countDown := Some (nextHandle s1)\<rparr>"
  have n1: "not_invoked h s s1"
    using r by (simp add: s1_def not_invoked_reset not_invoked_refl)
  then have n4: "not_invoked h s s4"
    by (simp add: s4_def not_invoked_def)
  have "snd (start s) = (if \<not> is_counting (priv s) then publish SessionStarted s4 else s)"
    by (simp add: start_def Let_def setInterval_def s1_def s4_def)
  with n4 r show ?thesis
    by (simp add: not_invoked_publish_after not_invoked_refl)
qed

lemma not_invoked_fire: "removed h s \<Longrightarrow> not_invoked h s (fire k s)"
proof -
  assume r: "removed h s"
  have "not_invoked h s (snd (stop (s\<lparr>intervals := iv\<rparr>)))" for iv
    by (rule not_invoked_trans [where ?s1.0 = "s\<lparr>intervals := iv\<rparr>"])
       (simp_all add: r not_invoked_same not_invoked_stop)
  with r show ?thesis
    by (simp add: fire_def publishTime_def not_invoked_refl not_invoked_publish_after
        not_invoked_same split: option.splits)
qed

lemma not_invoked_stepProcedure:
  "removed h s \<Longrightarrow> not_invoked h s (snd (stepProcedure name v s))"
proof -
  assume r: "removed h s"
  have "not_invoked h s (publish CurrentTime (publish SessionChanged (s\<lparr>priv := p\<rparr>)))" for p
    using r by (intro not_invoked_publish_after not_invoked_same) simp_all
  with r show ?thesis
    by (simp add: stepProcedure_def setStep_session_def not_invoked_refl)
qed

lemma not_invoked_changeStep:
  "removed h s \<Longrightarrow> not_invoked h s (snd (changeStep convert opt s))"
proof -
  assume r: "removed h s"
  have "not_invoked h s (snd (case stepProcedure name v s of
          (Inl e, s') \<Rightarrow> (Inl e, s') | (Inr u, s') \<Rightarrow> (Inr (Bool True), s')))" for name v
    using not_invoked_stepProcedure [OF r, of name v]
    by (cases "stepProcedure name v s") (auto split: sum.splits)
  with r show ?thesis
    by (simp add: changeStep_def Let_def not_invoked_refl split: option.splits sum.splits)
qed

lemma not_invoked_invoke_other:
  "removed h s \<Longrightarrow> readonly ext \<Longrightarrow> not_invoked h s (snd (invoke_other ext convert method s))"
  by (simp add: invoke_other_def not_invoked_start not_invoked_stop not_invoked_pause
      not_invoked_reset not_invoked_changeStep readonly_def not_invoked_refl)

lemma not_invoked_toggle_body:
  assumes "not_invoked h s (snd r)"
  shows "not_invoked h s (snd (toggle_body r))"
proof -
  from assms have "removed h (snd r)" by (simp add: not_invoked_def)
  then have "not_invoked h (snd r) (snd (start (snd r)))" by (rule not_invoked_start)
  with assms have "not_invoked h s (snd (start (snd r)))" by (rule not_invoked_trans)
  with assms show ?thesis
    by (auto simp add: toggle_body_def split: prod.splits sum.splits)
qed

lemma not_invoked_try_warn:
  "not_invoked h s (snd r) \<Longrightarrow> not_invoked h s (snd (try_warn r))"
  by (auto simp add: try_warn_def not_invoked_def split: prod.splits sum.splits)

lemma not_invoked_toggle:
  "removed h s \<Longrightarrow> readonly ext \<Longrightarrow> not_invoked h s (snd (toggle ext convert m s))"
  by (simp add: toggle_def invoke_def not_invoked_try_warn not_invoked_toggle_body
      not_invoked_invoke_other)

lemma not_invoked_subscribe:
  "removed h s \<Longrightarrow> not_invoked h s (snd (event_subscribe l name m s))"
proof (cases "event_of name")
  case None
  assume "removed h s"
  with None show ?thesis by (simp add: event_subscribe_def not_invoked_refl)
next
  case (Some ev)
  assume "removed h s"
  with Some show ?thesis
    by (cases "fst h = ev") (auto simp add: event_subscribe_def not_invoked_def removed_def nth_append)
qed

lemma not_invoked_remove: "removed h s \<Longrightarrow> not_invoked h s (handle_remove k s)"
proof -
  assume r: "removed h s"
  have "(listeners s (fst h))[j := None] ! snd h = None" for j
    using r by (cases "j = snd h") (simp_all add: removed_def)
  with r show ?thesis
    by (cases "fst k = fst h") (simp_all add: handle_remove_def not_invoked_def removed_def)
qed

lemma not_invoked_perform:
  "removed h s \<Longrightarrow> readonly ext \<Longrightarrow> not_invoked h s (perform ext convert a s)"
  by (cases a)
     (simp_all add: perform_def not_invoked_start not_invoked_stop not_invoked_pause
       not_invoked_reset not_invoked_changeStep not_invoked_toggle not_invoked_subscribe
       not_invoked_remove not_invoked_fire event_publish_def not_invoked_publish
       not_invoked_refl advance_def not_invoked_same split: option.splits)

lemma not_invoked_run:
  "removed h s \<Longrightarrow> readonly ext \<Longrightarrow> not_invoked h s (run ext convert acts s)"
proof (induction acts arbitrary: s rule: rev_induct)
  case Nil
  then show ?case by (simp add: not_invoked_refl)
next
  case (snoc a acts)
  have mid: "not_invoked h s (run ext convert acts s)" using snoc by simp
  then have "removed h (run ext convert acts s)" by (simp add: not_invoked_def)
  then have "not_invoked h (run ext convert acts s) (perform ext convert a (run ext convert acts s))"
    using snoc.prems(2) by (rule not_invoked_perform)
  with mid show ?case by (simp add: run_append not_invoked_trans)
qed

lemma publish_known_event:
  assumes "event_of name = Some ev"
  shows "event_publish name s = (Inr (), publish ev s) \<and>
         calls (publish ev s)
           = calls s @ map (\<lambda>p. ((ev, fst p), snd p)) (registered (listeners s ev)) \<and>
         sorted_wrt (<) (map fst (registered (listeners s ev))) \<and>
         fst (event_subscribe l name m s) = Inr (ev, length (listeners s ev)) \<and>
         registered (listeners (snd (event_subscribe l name m s)) ev)
           = registered (listeners s ev) @ [(length (listeners s ev), (l, m))] \<and>
         registered (listeners (handle_remove (ev, i) s) ev)
           = filter (\<lambda>p. fst p \<noteq> i) (registered (listeners s ev)) \<and>
         removed (ev, length (listeners s ev))
           (handle_remove (ev, length (listeners s ev)) (snd (event_subscribe l name m s))) \<and>
         (\<forall>h acts. removed h s \<and> readonly ext \<longrightarrow>
            (\<exists>xs. calls (run ext convert acts s) = calls s @ xs \<and> h \<notin> fst ` set xs))"
proof -
  have never: "\<exists>xs. calls (run ext convert acts s) = calls s @ xs \<and> h \<notin> fst ` set xs"
    if "removed h s" and "readonly ext" for h acts
    using not_invoked_run [OF that, of convert acts] by (simp add: not_invoked_def)
  show ?thesis
    using assms never
    by (simp add: event_publish_def publish_def invocations_def registered_sorted
        event_subscribe_def registered_subscribe handle_remove_def registered_remove
        removed_def)
qed

section \<open>The claims\<close>

subsection \<open>C1: pause and resume\<close>

text \<open>
  C1, as amended. For a timer that is neither running nor paused, the sequence
  \<open>start()\<close>, time \<open>a\<close>, \<open>pause()\<close>, time \<open>b\<close>, \<open>start()\<close>, time \<open>c\<close>, in which the
  host may fire the periodic action at any moment, yields an elapsed time of
  \<open>a + c\<close>, provided \<open>a\<close> is below the session length and \<open>a + c\<close> does not exceed
  it: the time \<open>b\<close> spent paused contributes nothing.
\<close>

theorem pause_resume_elapsed:
  assumes "reachable s"
    and "\<not> is_counting (priv s)" and "\<not> is_paused (priv s)"
    and "list_all env_action xa" and "list_all env_action xb" and "list_all env_action xc"
    and "duration xa < sessionLengthMs (priv s)"
    and "duration xa + duration xc \<le> sessionLengthMs (priv s)"
  shows "elapsedMs (clock (run ext convert (Start # xa @ Pause # xb @ Start # xc) s))
                   (priv (run ext convert (Start # xa @ Pause # xb @ Start # xc) s))
         = int (duration xa) + int (duration xc)"
proof -
  define n where "n = sessionLengthMs (priv s)"
  define s1 where "s1 = snd (start s)"
  define s2 where "s2 = run ext convert xa s1"
  define s3 where "s3 = snd (pause s2)"
  define s4 where "s4 = run ext convert xb s3"
  define s5 where "s5 = snd (start s4)"
  have inv: "timer_inv s" using assms(1) by (rule reachable_inv)
  have r1: "running_at 0 0 n s1"
    unfolding s1_def n_def using inv assms(2,3) by (rule start_fresh)
  have r2: "running_at 0 (0 + int (duration xa)) n s2"
    unfolding s2_def using r1 assms(4,7) by (intro running_env) (simp_all add: n_def)
  have p3: "paused_at (0 + (0 + int (duration xa))) n s3"
    unfolding s3_def using r2 by (rule pause_running)
  have p4: "paused_at (0 + (0 + int (duration xa))) n s4"
    unfolding s4_def using p3 assms(5) by (rule paused_env)
  have r5: "running_at (0 + (0 + int (duration xa))) 0 n s5"
    unfolding s5_def using p4 by (rule start_resume)
  have "elapsedMs (clock (run ext convert xc s5)) (priv (run ext convert xc s5))
        = (0 + (0 + int (duration xa))) + 0 + int (duration xc)"
  proof (rule running_env_elapsed [OF r5 _ assms(6)])
    show "0 \<le> 0 + (0 + int (duration xa)) + 0" by simp
    show "0 + (0 + int (duration xa)) + 0 + int (duration xc) \<le> int n"
      using assms(8) by (simp add: n_def)
  qed
  moreover have "run ext convert (Start # xa @ Pause # xb @ Start # xc) s = run ext convert xc s5"
    by (simp add: run_append perform_def s1_def s2_def s3_def s4_def s5_def)
  ultimately show ?thesis by simp
qed

theorem pause_resume_elapsed_witness:
  "reachable (new_timer 5000 1000 0) \<and>
   \<not> is_counting (priv (new_timer 5000 1000 0)) \<and>
   \<not> is_paused (priv (new_timer 5000 1000 0)) \<and>
   duration [Advance 1000, Fire 1, Advance 1000] < sessionLengthMs (priv (new_timer 5000 1000 0)) \<and>
   elapsedMs
     (clock (run no_ext ms_convert
        (Start # [Advance 1000, Fire 1, Advance 1000] @ Pause # [Advance 700, Fire 1]
          @ Start # [Advance 2000, Fire 2]) (new_timer 5000 1000 0)))
     (priv (run no_ext ms_convert
        (Start # [Advance 1000, Fire 1, Advance 1000] @ Pause # [Advance 700, Fire 1]
          @ Start # [Advance 2000, Fire 2]) (new_timer 5000 1000 0)))
   = 4000 \<and>
   runState (priv (run no_ext ms_convert
        (Start # [Advance 1000, Fire 1, Advance 1000] @ Pause # [Advance 700, Fire 1]
          @ Start # [Advance 2000, Fire 2]) (new_timer 5000 1000 0))) = Running"
proof -
  have r: "reachable (new_timer 5000 1000 0)" by (rule reachable_new)
  have c: "\<not> is_counting (priv (new_timer 5000 1000 0))"
    and p: "\<not> is_paused (priv (new_timer 5000 1000 0))"
    by (simp_all add: new_timer_def is_counting_def is_paused_def)
  have e: "list_all env_action [Advance 1000, Fire 1, Advance 1000]"
    "list_all env_action [Advance 700, Fire 1]"
    "list_all env_action [Advance 2000, Fire 2]"
    by simp_all
  have d: "duration [Advance 1000, Fire 1, Advance 1000] < sessionLengthMs (priv (new_timer 5000 1000 0))"
    "duration [Advance 1000, Fire 1, Advance 1000] + duration [Advance 2000, Fire 2]
       \<le> sessionLengthMs (priv (new_timer 5000 1000 0))"
    by (simp_all add: new_timer_def)
  have "elapsedMs
     (clock (run no_ext ms_convert
        (Start # [Advance 1000, Fire 1, Advance 1000] @ Pause # [Advance 700, Fire 1]
          @ Start # [Advance 2000, Fire 2]) (new_timer 5000 1000 0)))
     (priv (run no_ext ms_convert
        (Start # [Advance 1000, Fire 1, Advance 1000] @ Pause # [Advance 700, Fire 1]
          @ Start # [Advance 2000, Fire 2]) (new_timer 5000 1000 0)))
     = int (duration [Advance 1000, Fire 1, Advance 1000]) + int (duration [Advance 2000, Fire 2])"
    by (rule pause_resume_elapsed [OF r c p e d])
  also have "\<dots> = 4000" by simp
  finally have el: "elapsedMs
     (clock (run no_ext ms_convert
        (Start # [Advance 1000, Fire 1, Advance 1000] @ Pause # [Advance 700, Fire 1]
          @ Start # [Advance 2000, Fire 2]) (new_timer 5000 1000 0)))
     (priv (run no_ext ms_convert
        (Start # [Advance 1000, Fire 1, Advance 1000] @ Pause # [Advance 700, Fire 1]
          @ Start # [Advance 2000, Fire 2]) (new_timer 5000 1000 0)))
     = 4000" .
  have st: "runState (priv (run no_ext ms_convert
        (Start # [Advance 1000, Fire 1, Advance 1000] @ Pause # [Advance 700, Fire 1]
          @ Start # [Advance 2000, Fire 2]) (new_timer 5000 1000 0))) = Running"
    by (simp add: perform_def new_timer_def ts_defs op_defs Let_def)
  show ?thesis using r c p d(1) el st by blast
qed

text \<open>
  The claim as stated fails on a fresh timer with a session of 5000 ms: after
  4000 ms running, a pause and 3000 ms running again the elapsed time is 5000 ms,
  not 7000 ms.
\<close>

theorem pause_resume_elapsed_counterexample:
  "elapsedMs
     (clock (run no_ext ms_convert
        [Start, Advance 4000, Pause, Advance 1000, Start, Advance 3000] (new_timer 5000 1000 0)))
     (priv (run no_ext ms_convert
        [Start, Advance 4000, Pause, Advance 1000, Start, Advance 3000] (new_timer 5000 1000 0)))
   \<noteq> 4000 + 3000"
  by (simp add: perform_def new_timer_def ts_defs op_defs Let_def)

subsection \<open>C2: changing the session of an active timer\<close>

text \<open>
  C2, as amended. For every \<open>changeStep\<close> call with step \<open>session\<close> whose value converts,
  while the timer is running or paused: the new session value is committed, and
  \<open>sessionChanged\<close> and \<open>currentTime\<close> are published, only if the new value is
  strictly greater than the elapsed time; otherwise the state is unchanged and nothing
  is published. In both cases the call returns \<open>true\<close>; it returns \<open>false\<close> only for
  a decrement of a session that is already 0, which changes nothing either.
\<close>

theorem changeStep_session_active:
  assumes "step opts = ''session''"
    and "is_counting (priv s) \<or> is_paused (priv s)"
    and "convert opts = Inr ms"
  shows "changeStep convert (Some opts) s =
     (let sg = norm_sign (sign opts);
          cur = int (sessionLengthMs (priv s));
          v = new_value ms sg cur (norm_increment (increment opts))
      in if 0 < sg \<or> 0 < cur
         then (Inr (Bool True),
               if elapsedMs (clock s) (priv s) < v
               then publish CurrentTime (publish SessionChanged
                      (s\<lparr>priv := (priv s)\<lparr>sessionLengthMs := nat v\<rparr>\<rparr>))
               else s)
         else (Inr (Bool False), s))"
proof -
  have sg: "norm_sign (sign opts) = 1 \<or> norm_sign (sign opts) = - 1"
    by (auto simp add: norm_sign_def)
  show ?thesis
    using assms sg
    by (auto simp add: changeStep_def steps_has_def step_value_def Let_def
        stepProcedure_session_active new_value_nonneg)
qed

theorem changeStep_session_active_witness:
  "step (session_options 4000 None None) = ''session'' \<and>
   (is_counting (priv running_3000) \<or> is_paused (priv running_3000)) \<and>
   ms_convert (session_options 4000 None None) = Inr 4000 \<and>
   fst (changeStep ms_convert (Some (session_options 4000 None None)) running_3000)
     = Inr (Bool True) \<and>
   sessionLengthMs (priv (snd
     (changeStep ms_convert (Some (session_options 4000 None None)) running_3000))) = 4000"
proof -
  have a: "step (session_options 4000 None None) = ''session''"
    by (simp add: session_options_def)
  have b: "is_counting (priv running_3000) \<or> is_paused (priv running_3000)"
    by (simp add: running_3000_def perform_def new_timer_def ts_defs op_defs Let_def)
  have c: "ms_convert (session_options 4000 None None) = Inr 4000"
    by (simp add: session_options_def ms_convert_def)
  have e: "elapsedMs (clock running_3000) (priv running_3000) = 3000"
    and n: "sessionLengthMs (priv running_3000) = 5000"
    by (simp_all add: running_3000_def perform_def new_timer_def ts_defs op_defs Let_def)
  show ?thesis
    using a b c
      changeStep_session_active [where opts = "session_options 4000 None None"
        and s = running_3000 and convert = ms_convert and ms = 4000, OF a b c]
    by (simp add: e n Let_def new_value_def norm_sign_def norm_increment_def
        session_options_def publish_def)
qed

text \<open>
  The claim as stated fails on a timer that has run 3000 ms of 5000 ms: a new session
  of 1000 ms is dropped, the state is unchanged, and the call returns \<open>true\<close>.
\<close>

theorem changeStep_session_active_counterexample:
  "is_counting (priv running_3000) \<and>
   \<not> elapsedMs (clock running_3000) (priv running_3000) < 1000 \<and>
   snd (changeStep ms_convert (Some (session_options 1000 None None)) running_3000)
     = running_3000 \<and>
   fst (changeStep ms_convert (Some (session_options 1000 None None)) running_3000)
     \<noteq> Inr (Bool False)"
  by (simp add: running_3000_def perform_def new_timer_def ts_defs op_defs cs_defs Let_def)

subsection \<open>C3: start while running\<close>

text \<open>
  C3. For every timer already running, a further \<open>start()\<close> returns \<open>false\<close> and
  leaves the timer as it is (so it publishes nothing and registers nothing); exactly
  one periodic registration is active, and a tick publishes \<open>currentTime\<close> at most
  once.
\<close>

theorem start_while_running:
  assumes "reachable s" and "is_counting (priv s)"
  shows "start s = (Inr (Bool False), s) \<and>
         (\<exists>!h. intervals (snd (start s)) h \<noteq> None) \<and>
         (\<forall>h. length (filter (\<lambda>e. e = CurrentTime) (published (fire h (snd (start s)))))
               \<le> Suc (length (filter (\<lambda>e. e = CurrentTime) (published s))))"
proof -
  from assms(1) have inv: "timer_inv s" by (rule reachable_inv)
  have st: "start s = (Inr (Bool False), s)"
    using assms(2) by (simp add: start_def)
  from inv assms(2) obtain k where "intervals s = (\<lambda>_. None)(k := Some True)"
    using intervals_running by (auto simp add: is_counting_def)
  then have one: "\<exists>!h. intervals s h \<noteq> None" by auto
  show ?thesis using st one fire_currentTime by simp
qed

theorem start_while_running_witness:
  "reachable running_3000 \<and> is_counting (priv running_3000) \<and>
   start running_3000 = (Inr (Bool False), running_3000)"
proof -
  have c: "is_counting (priv running_3000)"
    by (simp add: running_3000_def perform_def new_timer_def ts_defs op_defs Let_def)
  from start_while_running [OF reachable_running_3000 c] show ?thesis
    using reachable_running_3000 c by blast
qed

subsection \<open>C4: the periodic action\<close>

text \<open>
  C4. On every tick of the periodic action: if the session is complete, the timer is
  stopped, its registration is cancelled, only \<open>sessionStopped\<close> is published, and
  whatever the host fires afterwards publishes nothing; if the session is not
  complete, the sampled time is updated and \<open>currentTime\<close> is published.
\<close>

theorem tick_fires:
  assumes "reachable s" and "intervals s h = Some True"
  shows "if isSessionComplete (clock s) (priv s)
         then runState (priv (fire h s)) = Stopped \<and>
              intervals (fire h s) = (\<lambda>_. None) \<and>
              published (fire h s) = published s @ [SessionStopped] \<and>
              (\<forall>acts. list_all env_action acts \<longrightarrow>
                 published (run ext convert acts (fire h s)) = published (fire h s))
         else fire h s = publish CurrentTime (s\<lparr>priv := (priv s)\<lparr>nowEpochMs := clock s\<rparr>\<rparr>)"
proof (cases "isSessionComplete (clock s) (priv s)")
  case True
  from assms(1) have inv: "timer_inv s" by (rule reachable_inv)
  have f: "fire h s = publish SessionStopped
           (s\<lparr>priv := markStopped (clock s) (priv s), intervals := (\<lambda>_. None)\<rparr>)"
    using assms(2) True by (simp add: fire_def publishTime_def stop_completing [OF inv])
  have inv': "timer_inv (fire h s)" using inv by (rule timer_inv_fire)
  have stopped: "runState (priv (fire h s)) = Stopped"
    by (simp add: f publish_def markStopped_def Let_def)
  have quiet: "published (run ext convert acts (fire h s)) = published (fire h s)"
    if "list_all env_action acts" for acts
    using run_env_not_running [OF inv' _ that, of ext convert] stopped by simp
  show ?thesis
    using True stopped quiet by (simp add: f publish_def)
next
  case False
  with assms(2) show ?thesis by (simp add: fire_def publishTime_def)
qed

theorem tick_fires_witness:
  "reachable running_7000 \<and> intervals running_7000 1 = Some True \<and>
   isSessionComplete (clock running_7000) (priv running_7000) \<and>
   runState (priv (fire 1 running_7000)) = Stopped \<and>
   published (fire 1 running_7000) = published running_7000 @ [SessionStopped]"
proof -
  have i: "intervals running_7000 1 = Some True"
    by (simp add: running_7000_def perform_def new_timer_def ts_defs op_defs Let_def)
  have c: "isSessionComplete (clock running_7000) (priv running_7000)"
    by (simp add: running_7000_def perform_def new_timer_def ts_defs op_defs Let_def)
  from tick_fires [OF reachable_running_7000 i, of no_ext ms_convert] c show ?thesis
    using reachable_running_7000 i by simp
qed

subsection \<open>C5: stop\<close>

text \<open>
  C5. For every timer that is neither running nor paused, \<open>stop()\<close> returns \<open>false\<close>
  and leaves the timer as it is; when the timer is running or paused, \<open>stop()\<close>
  cancels the periodic registration, marks the state stopped and publishes
  \<open>sessionStopped\<close> exactly once.
\<close>

theorem stop_noop_or_stops:
  assumes "reachable s"
  shows "if is_counting (priv s) \<or> is_paused (priv s)
         then fst (stop s) = Inr This \<and>
              intervals (snd (stop s)) = (\<lambda>_. None) \<and>
              runState (priv (snd (stop s))) = Stopped \<and>
              published (snd (stop s)) = published s @ [SessionStopped]
         else stop s = (Inr (Bool False), s)"
proof -
  from assms have inv: "timer_inv s" by (rule reachable_inv)
  show ?thesis
    by (simp add: stop_def Let_def publish_def intervals_after_clear [OF inv])
       (simp add: markStopped_def Let_def)
qed

theorem stop_noop_or_stops_witness:
  "reachable running_3000 \<and> is_counting (priv running_3000) \<and>
   fst (stop running_3000) = Inr This \<and>
   intervals (snd (stop running_3000)) = (\<lambda>_. None) \<and>
   runState (priv (snd (stop running_3000))) = Stopped \<and>
   published (snd (stop running_3000)) = published running_3000 @ [SessionStopped]"
proof -
  have c: "is_counting (priv running_3000)"
    by (simp add: running_3000_def perform_def new_timer_def ts_defs op_defs Let_def)
  from stop_noop_or_stops [OF reachable_running_3000] c show ?thesis
    using reachable_running_3000 by simp
qed

subsection \<open>C6: stop clamps the elapsed time\<close>

text \<open>
  C6. For every running timer whose elapsed time at the moment of stopping would
  exceed the session length, after \<open>stop()\<close> the banked time and the elapsed time
  equal the session length exactly.
\<close>

theorem stop_clamps:
  assumes "is_counting (priv s)"
    and "int (sessionLengthMs (priv s)) < accumulatedMs (priv s) + segment (clock s) (priv s)"
  shows "accumulatedMs (priv (snd (stop s))) = int (sessionLengthMs (priv s)) \<and>
         sessionLengthMs (priv (snd (stop s))) = sessionLengthMs (priv s) \<and>
         (\<forall>now. elapsedMs now (priv (snd (stop s))) = int (sessionLengthMs (priv s)))"
  using assms
  by (simp add: stop_def Let_def publish_def is_counting_def markStopped_def elapsedMs_def)

theorem stop_clamps_witness:
  "is_counting (priv running_7000) \<and>
   int (sessionLengthMs (priv running_7000))
     < accumulatedMs (priv running_7000) + segment (clock running_7000) (priv running_7000) \<and>
   elapsedMs (clock (snd (stop running_7000))) (priv (snd (stop running_7000))) = 5000"
proof -
  have c: "is_counting (priv running_7000)"
    by (simp add: running_7000_def perform_def new_timer_def ts_defs op_defs Let_def)
  have o: "int (sessionLengthMs (priv running_7000))
     < accumulatedMs (priv running_7000) + segment (clock running_7000) (priv running_7000)"
    by (simp add: running_7000_def perform_def new_timer_def ts_defs op_defs Let_def)
  have n: "sessionLengthMs (priv running_7000) = 5000"
    by (simp add: running_7000_def perform_def new_timer_def ts_defs op_defs Let_def)
  from stop_clamps [OF c o] show ?thesis using c o n by simp
qed

subsection \<open>C7: an unrecognized step\<close>

text \<open>
  C7. For every \<open>changeStep\<close> call whose step is not a recognized step name, the
  call raises an error to its caller and the timer, with its step values, is
  unchanged.
\<close>

theorem changeStep_unrecognized_step:
  "\<not> steps_has (step opts) \<Longrightarrow> changeStep convert (Some opts) s = (Inl StepNotChanged, s)"
  by (simp add: changeStep_def)

theorem changeStep_unrecognized_step_witness:
  "\<not> steps_has (step \<lparr>step = ''volume'', ovalue = Some 1, units = None, sign = None,
       increment = None\<rparr>) \<and>
   changeStep ms_convert
     (Some \<lparr>step = ''volume'', ovalue = Some 1, units = None, sign = None, increment = None\<rparr>)
     (new_timer 5000 1000 0) = (Inl StepNotChanged, new_timer 5000 1000 0)"
proof -
  have h: "\<not> steps_has (step \<lparr>step = ''volume'', ovalue = Some 1, units = None, sign = None,
       increment = None\<rparr>)"
    by (simp add: steps_has_def)
  from changeStep_unrecognized_step [OF h] show ?thesis using h by blast
qed

subsection \<open>C8: toggle\<close>

text \<open>
  C8. For every method name passed to \<open>toggle\<close> (default \<open>stop\<close>), \<open>toggle\<close> invokes
  that method and, if the result is falsy, calls \<open>start()\<close>; an error raised by the
  invoked method is caught and its message reported, and \<open>toggle\<close> itself never
  raises. Method by method: \<open>stop\<close> stops a running or paused timer and starts any
  other; \<open>pause\<close> pauses a running timer and starts any other; \<open>start\<close> starts a
  timer that is not running and leaves a running one alone; \<open>reset\<close> resets and
  starts; \<open>changeStep\<close>, called without options, raises and is reported; \<open>toggle\<close>
  toggles with the default and then starts; any other name does what the object has
  under that name, followed by \<open>start()\<close> when it returns a falsy value and by a
  warning when it raises.
\<close>

theorem toggle_never_raises:
  "toggle ext convert m s =
     (Inr Undefined,
      let method = (case m of None \<Rightarrow> ''stop'' | Some name \<Rightarrow> name)
      in if method = ''stop'' then
           (if is_counting (priv s) \<or> is_paused (priv s) then snd (stop s) else snd (start s))
         else if method = ''pause'' then
           (if is_counting (priv s) then snd (pause s) else snd (start s))
         else if method = ''start'' then
           (if is_counting (priv s) then s else snd (start s))
         else if method = ''reset'' then snd (start (snd (reset s)))
         else if method = ''changeStep'' then s\<lparr>warnings := warnings s @ [message TypeError]\<rparr>
         else if method = ''toggle'' then
           snd (start (if is_counting (priv s) \<or> is_paused (priv s)
                       then snd (stop s) else snd (start s)))
         else (case ext method s of
                 (Inl e, s1) \<Rightarrow> s1\<lparr>warnings := warnings s1 @ [message e]\<rparr>
               | (Inr v, s1) \<Rightarrow> if truthy v then s1 else snd (start s1)))"
proof -
  have cs: "try_warn (toggle_body (changeStep convert None s))
      = (Inr Undefined, s\<lparr>warnings := warnings s @ [message TypeError]\<rparr>)"
    by (simp add: changeStep_def toggle_after_error)
  have tg: "try_warn (toggle_body (try_warn (toggle_body (stop s))))
      = (Inr Undefined, snd (start (if is_counting (priv s) \<or> is_paused (priv s)
                       then snd (stop s) else snd (start s))))"
    by (simp add: toggle_stop toggle_after [of _ Undefined])
  define nm where "nm = (case m of None \<Rightarrow> ''stop'' | Some name \<Rightarrow> name)"
  have t: "toggle ext convert m s = try_warn (toggle_body (invoke ext convert nm s))"
    by (simp add: toggle_def nm_def)
  consider "nm = ''stop''" | "nm = ''pause''" | "nm = ''start''"
    | "nm = ''reset''" | "nm = ''changeStep''" | "nm = ''toggle''"
    | "nm \<noteq> ''stop''" "nm \<noteq> ''pause''" "nm \<noteq> ''start''"
      "nm \<noteq> ''reset''" "nm \<noteq> ''changeStep''" "nm \<noteq> ''toggle''"
    by blast
  then have "try_warn (toggle_body (invoke ext convert nm s)) =
     (Inr Undefined,
      if nm = ''stop'' then
           (if is_counting (priv s) \<or> is_paused (priv s) then snd (stop s) else snd (start s))
         else if nm = ''pause'' then
           (if is_counting (priv s) then snd (pause s) else snd (start s))
         else if nm = ''start'' then
           (if is_counting (priv s) then s else snd (start s))
         else if nm = ''reset'' then snd (start (snd (reset s)))
         else if nm = ''changeStep'' then s\<lparr>warnings := warnings s @ [message TypeError]\<rparr>
         else if nm = ''toggle'' then
           snd (start (if is_counting (priv s) \<or> is_paused (priv s)
                       then snd (stop s) else snd (start s)))
         else (case ext nm s of
                 (Inl e, s1) \<Rightarrow> s1\<lparr>warnings := warnings s1 @ [message e]\<rparr>
               | (Inr v, s1) \<Rightarrow> if truthy v then s1 else snd (start s1)))"
  proof cases
    case 1
    then show ?thesis by (simp add: invoke_def invoke_other_def toggle_stop)
  next
    case 2
    then show ?thesis by (simp add: invoke_def invoke_other_def toggle_pause)
  next
    case 3
    then show ?thesis by (simp add: invoke_def invoke_other_def toggle_start)
  next
    case 4
    then show ?thesis by (simp add: invoke_def invoke_other_def toggle_reset)
  next
    case 5
    then show ?thesis by (simp add: invoke_def invoke_other_def cs)
  next
    case 6
    then show ?thesis by (simp add: invoke_def invoke_other_def tg)
  next
    case 7
    then have "invoke ext convert nm s = ext nm s"
      by (simp add: invoke_def invoke_other_def)
    with 7 show ?thesis by (simp add: toggle_ext)
  qed
  with t show ?thesis by (simp add: nm_def Let_def)
qed

theorem toggle_never_raises_witness:
  "toggle no_ext ms_convert None running_3000 = (Inr Undefined, snd (stop running_3000)) \<and>
   runState (priv (snd (toggle no_ext ms_convert None running_3000))) = Stopped \<and>
   published (snd (toggle no_ext ms_convert None running_3000))
     = published running_3000 @ [SessionStopped] \<and>
   toggle no_ext ms_convert None (new_timer 5000 1000 0)
     = (Inr Undefined, snd (start (new_timer 5000 1000 0))) \<and>
   runState (priv (snd (toggle no_ext ms_convert None (new_timer 5000 1000 0)))) = Running \<and>
   published (snd (toggle no_ext ms_convert (Some ''pause'') running_3000))
     = published running_3000 @ [SessionPaused] \<and>
   toggle no_ext ms_convert (Some ''changeStep'') (new_timer 5000 1000 0)
     = (Inr Undefined, (new_timer 5000 1000 0)\<lparr>warnings := [''TypeError'']\<rparr>)"
proof -
  have c: "is_counting (priv running_3000)"
    by (simp add: running_3000_def perform_def new_timer_def ts_defs op_defs Let_def)
  have n: "\<not> is_counting (priv (new_timer 5000 1000 0))"
    "\<not> is_paused (priv (new_timer 5000 1000 0))"
    by (simp_all add: new_timer_def is_counting_def is_paused_def)
  have a: "toggle no_ext ms_convert None running_3000 = (Inr Undefined, snd (stop running_3000))"
    using toggle_never_raises [of no_ext ms_convert None running_3000] c by simp
  have b: "toggle no_ext ms_convert None (new_timer 5000 1000 0)
     = (Inr Undefined, snd (start (new_timer 5000 1000 0)))"
    using toggle_never_raises [of no_ext ms_convert None "new_timer 5000 1000 0"] n by simp
  have p: "toggle no_ext ms_convert (Some ''pause'') running_3000
     = (Inr Undefined, snd (pause running_3000))"
    using toggle_never_raises [of no_ext ms_convert "Some ''pause''" running_3000] c by simp
  have e: "toggle no_ext ms_convert (Some ''changeStep'') (new_timer 5000 1000 0)
     = (Inr Undefined, (new_timer 5000 1000 0)\<lparr>warnings := [''TypeError'']\<rparr>)"
    using toggle_never_raises [of no_ext ms_convert "Some ''changeStep''" "new_timer 5000 1000 0"]
    by (simp add: new_timer_def)
  have s1: "runState (priv (snd (stop running_3000))) = Stopped"
    "published (snd (stop running_3000)) = published running_3000 @ [SessionStopped]"
    using c by (simp_all add: stop_def Let_def publish_def markStopped_def)
  have s2: "runState (priv (snd (start (new_timer 5000 1000 0)))) = Running"
    using n
    by (simp add: start_def Let_def reset_def publish_def setInterval_def markRunning_def
        split: prod.splits)
  have s3: "published (snd (pause running_3000)) = published running_3000 @ [SessionPaused]"
    using c by (simp add: pause_def Let_def publish_def)
  show ?thesis by (simp add: a b p e s1 s2 s3)
qed

subsection \<open>C9: the event channel\<close>

text \<open>
  C9. For every event name (a name that is none of the events has no registration:
  subscribing to it and publishing it raise), \<open>publish\<close> invokes the registered method of every
  listener currently registered for that event, in registration order, skipping
  removed entries: a subscription is appended with the next index, a removal takes
  out exactly the registration of its handle, and the invocations are those of the
  registrations left, by increasing index. In particular a registration removed
  through its handle is never invoked, whatever happens to the timer afterwards.
\<close>

theorem publish_registration_order:
  "case event_of name of
     None \<Rightarrow>
       event_publish name s = (Inl TypeError, s) \<and>
       event_subscribe l name m s = (Inl TypeError, s)
   | Some ev \<Rightarrow>
       event_publish name s = (Inr (), publish ev s) \<and>
       calls (publish ev s)
         = calls s @ map (\<lambda>p. ((ev, fst p), snd p)) (registered (listeners s ev)) \<and>
       sorted_wrt (<) (map fst (registered (listeners s ev))) \<and>
       fst (event_subscribe l name m s) = Inr (ev, length (listeners s ev)) \<and>
       registered (listeners (snd (event_subscribe l name m s)) ev)
         = registered (listeners s ev) @ [(length (listeners s ev), (l, m))] \<and>
       registered (listeners (handle_remove (ev, i) s) ev)
         = filter (\<lambda>p. fst p \<noteq> i) (registered (listeners s ev)) \<and>
       removed (ev, length (listeners s ev))
         (handle_remove (ev, length (listeners s ev)) (snd (event_subscribe l name m s))) \<and>
       (\<forall>h acts. removed h s \<and> readonly ext \<longrightarrow>
          (\<exists>xs. calls (run ext convert acts s) = calls s @ xs \<and> h \<notin> fst ` set xs))"
proof (cases "event_of name")
  case None
  then show ?thesis by (simp add: event_publish_def event_subscribe_def)
next
  case (Some ev)
  with publish_known_event [OF Some, of s l m i ext convert] show ?thesis by simp
qed

theorem publish_registration_order_witness:
  "event_of ''currentTime'' = Some CurrentTime \<and>
   event_publish ''currentTime''
     (handle_remove (CurrentTime, 0)
        (snd (event_subscribe ''listenerA'' ''currentTime'' ''onTick'' (new_timer 5000 1000 0))))
   = (Inr (), publish CurrentTime
     (handle_remove (CurrentTime, 0)
        (snd (event_subscribe ''listenerA'' ''currentTime'' ''onTick'' (new_timer 5000 1000 0))))) \<and>
   calls (publish CurrentTime
     (handle_remove (CurrentTime, 0)
        (snd (event_subscribe ''listenerA'' ''currentTime'' ''onTick'' (new_timer 5000 1000 0)))))
   = []"
proof -
  have e: "event_of ''currentTime'' = Some CurrentTime"
    by (simp add: event_of.simps)
  have l: "listeners (handle_remove (CurrentTime, 0)
        (snd (event_subscribe ''listenerA'' ''currentTime'' ''onTick'' (new_timer 5000 1000 0))))
        CurrentTime = [None]"
    by (simp add: handle_remove_def event_subscribe_def e new_timer_def)
  have c: "calls (handle_remove (CurrentTime, 0)
        (snd (event_subscribe ''listenerA'' ''currentTime'' ''onTick'' (new_timer 5000 1000 0))))
        = []"
    by (simp add: handle_remove_def event_subscribe_def e new_timer_def)
  from publish_registration_order [of "''currentTime''"
      "handle_remove (CurrentTime, 0)
        (snd (event_subscribe ''listenerA'' ''currentTime'' ''onTick'' (new_timer 5000 1000 0)))"]
  show ?thesis using e by (simp add: l c registered_def)
qed

subsection \<open>C10: a decrement at zero\<close>

text \<open>
  C10. For every \<open>changeStep\<close> call with a recognized step, sign \<open>-1\<close> and a current
  step value of 0, the call returns \<open>false\<close> and leaves the timer as it is (no
  mutation, no event), whatever the increment and the value are.
\<close>

theorem changeStep_decrement_at_zero:
  "steps_has (step opts) \<Longrightarrow> sign opts = Some (- 1) \<Longrightarrow> step_value (step opts) (priv s) = 0
   \<Longrightarrow> changeStep convert (Some opts) s = (Inr (Bool False), s)"
  by (simp add: changeStep_def norm_sign_def)

theorem changeStep_decrement_at_zero_witness:
  "steps_has (step (session_options 1000 (Some (- 1)) (Some 0))) \<and>
   sign (session_options 1000 (Some (- 1)) (Some 0)) = Some (- 1) \<and>
   step_value (step (session_options 1000 (Some (- 1)) (Some 0))) (priv (new_timer 0 1000 0)) = 0 \<and>
   changeStep ms_convert (Some (session_options 1000 (Some (- 1)) (Some 0))) (new_timer 0 1000 0)
   = (Inr (Bool False), new_timer 0 1000 0)"
proof -
  have a: "steps_has (step (session_options 1000 (Some (- 1)) (Some 0)))"
    by (simp add: session_options_def steps_has_def)
  have b: "sign (session_options 1000 (Some (- 1)) (Some 0)) = Some (- 1)"
    by (simp add: session_options_def)
  have c: "step_value (step (session_options 1000 (Some (- 1)) (Some 0)))
      (priv (new_timer 0 1000 0)) = 0"
    by (simp add: session_options_def step_value_def new_timer_def)
  from changeStep_decrement_at_zero [OF a b c] show ?thesis using a b c by blast
qed

end
